theory Spec2Isabelle
  imports Complex_Main "HOL-Library.AList" "HOL-Library.Char_ord" "HOL-Library.List_Lexorder"
    "HOL-Library.Multiset"
begin

section \<open>Data model of \<open>election.py\<close>\<close>

text \<open>
  Python exceptions that the modelled code can raise. \<open>Exception\<close> is the bare
  \<^verbatim>\<open>raise Exception\<close> of \<^verbatim>\<open>Person.vote\<close>; \<open>IndexError\<close> comes from indexing an empty
  list, \<open>KeyError\<close> from a missing dictionary key, and \<open>ValueError\<close> is what the
  numpy sampling routines raise on bad arguments.
\<close>

datatype error = Exception | IndexError | KeyError | ValueError

text \<open>
  Weights are Python floats (IEEE doubles). A double is represented by a real number: a
  finite double by its value and the two infinities by \<open>2 ^ 1024\<close> and \<open>- 2 ^ 1024\<close>,
  which keeps the order, so comparisons, sorting keys and \<^verbatim>\<open>max\<close> are those of the
  reals. NaN is never a weight or a score: \<^verbatim>\<open>max(0, g)\<close> is not NaN and neither is a
  sum of non-negative doubles. The addition of doubles rounds, so it is not \<open>+\<close> on the
  reals: it is a parameter \<open>fadd\<close> of every function that adds weights, and nothing is
  assumed about it. Multiplying by the integer 1 is exact.
  Strings are compared as Python does, lexicographically by character code.
  A Python \<^verbatim>\<open>dict\<close> is an association list with distinct keys in insertion order:
  \<open>AList.update\<close> overwrites in place or appends, like \<^verbatim>\<open>d[k] = v\<close>.
\<close>

type_synonym 'v pydict = "(string \<times> 'v) list"

text \<open>\<^verbatim>\<open>{s: 0 for s in stances}\<close>\<close>

definition zero_dict :: "string list \<Rightarrow> int pydict" where
  "zero_dict ss = fold (\<lambda>s d. AList.update s 0 d) ss []"

text \<open>\<^verbatim>\<open>d[k] += 1\<close>: the read of a missing key raises \<open>KeyError\<close>.\<close>

definition incr_key :: "int pydict \<Rightarrow> string \<Rightarrow> error + int pydict" where
  "incr_key d k = (case map_of d k of None \<Rightarrow> Inl KeyError
                   | Some n \<Rightarrow> Inr (AList.update k (n + 1) d))"

record issue =
  name :: string
  stances :: "string list"
  vote_totals :: "int pydict"

definition Issue :: "string \<Rightarrow> string list \<Rightarrow> issue" where
  "Issue n ss = \<lparr>name = n, stances = ss, vote_totals = zero_dict ss\<rparr>"

text \<open>
  A view's stance is a string, or \<open>None\<close> (which \<^verbatim>\<open>get_majority_stance\<close> can return).
  \<^verbatim>\<open>View(issue, stance)\<close> has the default weight 1.
\<close>

record view =
  issue :: issue
  stance :: "string option"
  weight :: real

definition View :: "issue \<Rightarrow> string option \<Rightarrow> real \<Rightarrow> view" where
  "View i s w = \<lparr>issue = i, stance = s, weight = w\<rparr>"

record population_view =
  issue :: issue
  proportions :: "real pydict"
  weight :: real
  weight_variance :: real

record person =
  views :: "view list"

record candidate =
  views :: "view list"
  votes :: int
  name :: string

text \<open>
  \<^verbatim>\<open>sorted(xs, key=f)\<close> is a stable sort, as \<open>sort_key\<close> is. With \<^verbatim>\<open>reverse=True\<close>
  Python reverses the list, sorts it stably and reverses the result, so that
  elements with equal keys keep their input order.
\<close>

definition sorted_reverse :: "('a \<Rightarrow> 'k::linorder) \<Rightarrow> 'a list \<Rightarrow> 'a list" where
  "sorted_reverse f xs = rev (sort_key f (rev xs))"

text \<open>\<^verbatim>\<open>Candidate.__init__\<close> and \<^verbatim>\<open>Candidate.receive_vote\<close>\<close>

definition Candidate :: "string \<Rightarrow> view list \<Rightarrow> candidate" where
  "Candidate n vs =
     \<lparr>views = sort_key (\<lambda>x. issue.name (view.issue x)) vs, votes = 0, name = n\<rparr>"

definition receive_vote :: "candidate \<Rightarrow> candidate" where
  "receive_vote c = c\<lparr>votes := votes c + 1\<rparr>"

section \<open>The voter's decision procedure\<close>

text \<open>
  The inner loop of \<^verbatim>\<open>Person.vote\<close> over \<^verbatim>\<open>zip(c.views, self.views)\<close>, with the running
  value of \<^verbatim>\<open>c_agreements['agreements']\<close> as accumulator.
\<close>

fun count_agreements ::
  "(real \<Rightarrow> real \<Rightarrow> real) \<Rightarrow> (view \<times> view) list \<Rightarrow> real \<Rightarrow> error + real" where
  "count_agreements fadd [] acc = Inr acc"
| "count_agreements fadd ((i, j) # ps) acc =
     (if issue.name (view.issue i) \<noteq> issue.name (view.issue j) then Inl Exception
      else if stance i = stance j then count_agreements fadd ps (fadd acc (1 * view.weight j))
      else count_agreements fadd ps acc)"

definition agreement_score ::
  "(real \<Rightarrow> real \<Rightarrow> real) \<Rightarrow> person \<Rightarrow> candidate \<Rightarrow> error + real" where
  "agreement_score fadd self c =
     count_agreements fadd (zip (candidate.views c) (person.views self)) 0"

text \<open>
  One entry of the \<^verbatim>\<open>agreements\<close> list. The candidate object is referred to by its
  position in the \<^verbatim>\<open>candidates\<close> list.
\<close>

record c_agreements =
  candidate_ix :: nat
  agreements :: real

text \<open>The outer loop of \<^verbatim>\<open>Person.vote\<close>; \<open>k\<close> is the position of the next candidate.\<close>

fun all_agreements ::
  "(real \<Rightarrow> real \<Rightarrow> real) \<Rightarrow> person \<Rightarrow> candidate list \<Rightarrow> nat \<Rightarrow> error + c_agreements list"
  where
  "all_agreements fadd self [] k = Inr []"
| "all_agreements fadd self (c # cs) k =
     (case agreement_score fadd self c of
        Inl e \<Rightarrow> Inl e
      | Inr a \<Rightarrow>
          (case all_agreements fadd self cs (Suc k) of
             Inl e \<Rightarrow> Inl e
           | Inr rest \<Rightarrow> Inr (\<lparr>candidate_ix = k, agreements = a\<rparr> # rest)))"

text \<open>
  \<^verbatim>\<open>Person.vote\<close>. The result is the outcome of the call together with the candidates
  as the call leaves them: the only mutation is \<^verbatim>\<open>receive_vote\<close> on the preferred
  candidate, after all scores are computed, so an exception leaves them as they were.
\<close>

definition vote ::
  "(real \<Rightarrow> real \<Rightarrow> real) \<Rightarrow> person \<Rightarrow> candidate list \<Rightarrow> (error + unit) \<times> candidate list"
  where
  "vote fadd self candidates =
     (case all_agreements fadd self candidates 0 of
        Inl e \<Rightarrow> (Inl e, candidates)
      | Inr ags \<Rightarrow>
          (case sorted_reverse agreements ags of
             [] \<Rightarrow> (Inl IndexError, candidates)
           | best # _ \<Rightarrow>
               (Inr (),
                candidates[candidate_ix best := receive_vote (candidates ! candidate_ix best)])))"

text \<open>
  The check the inner loop makes, as a predicate: at every position of
  \<^verbatim>\<open>zip(c.views, self.views)\<close> the two views name the same issue.
\<close>

definition views_aligned :: "person \<Rightarrow> candidate \<Rightarrow> bool" where
  "views_aligned self c =
     list_all (\<lambda>(i, j). issue.name (view.issue i) = issue.name (view.issue j))
       (zip (candidate.views c) (person.views self))"

text \<open>
  The score as the specification words it, to compare with the loop: the voter's weights at
  the positions of \<^verbatim>\<open>zip(c.views, self.views)\<close> where the two stances are equal, added up
  from 0 in position order with the addition of doubles.
\<close>

definition spec_agreement_score ::
  "(real \<Rightarrow> real \<Rightarrow> real) \<Rightarrow> person \<Rightarrow> candidate \<Rightarrow> real" where
  "spec_agreement_score fadd self c =
     foldl fadd 0
       (map (\<lambda>(i, j). view.weight j)
          (filter (\<lambda>(i, j). view.stance i = view.stance j)
             (zip (candidate.views c) (person.views self))))"

section \<open>Sampling voters\<close>

text \<open>
  The numpy random source is a parameter: \<open>random_choice\<close> stands for
  \<^verbatim>\<open>np.random.choice(a, p=p)\<close> and \<open>random_normal\<close> for
  \<^verbatim>\<open>np.random.normal(loc, scale, 1)[0]\<close>. Each takes the state of the generator and
  returns the draw with the next state, or the exception numpy raises. Nothing is
  assumed about what they return.
\<close>

record 's np_random =
  random_choice :: "'s \<Rightarrow> string list \<Rightarrow> real list \<Rightarrow> error + string \<times> 's"
  random_normal :: "'s \<Rightarrow> real \<Rightarrow> real \<Rightarrow> error + real \<times> 's"

text \<open>\<^verbatim>\<open>[i.proportions[j] for j in possible_stances]\<close>\<close>

fun lookup_proportions :: "real pydict \<Rightarrow> string list \<Rightarrow> error + real list" where
  "lookup_proportions d [] = Inr []"
| "lookup_proportions d (j # js) =
     (case map_of d j of
        None \<Rightarrow> Inl KeyError
      | Some p \<Rightarrow>
          (case lookup_proportions d js of Inl e \<Rightarrow> Inl e | Inr ps \<Rightarrow> Inr (p # ps)))"

text \<open>\<^verbatim>\<open>Person._decide_views\<close>; \<open>vs\<close> is \<^verbatim>\<open>self.views\<close> so far.\<close>

fun decide_views ::
  "'s np_random \<Rightarrow> population_view list \<Rightarrow> view list \<Rightarrow> 's \<Rightarrow> error + view list \<times> 's" where
  "decide_views np [] vs s = Inr (vs, s)"
| "decide_views np (i # rest) vs s =
     (let iss = population_view.issue i; possible_stances = stances iss in
      case lookup_proportions (proportions i) possible_stances of
        Inl e \<Rightarrow> Inl e
      | Inr probabilities \<Rightarrow>
          (case random_choice np s possible_stances probabilities of
             Inl e \<Rightarrow> Inl e
           | Inr (choice, s1) \<Rightarrow>
               (case random_normal np s1 (population_view.weight i) (weight_variance i) of
                  Inl e \<Rightarrow> Inl e
                | Inr (g, s2) \<Rightarrow>
                    (let importance = max 0 g
                     in decide_views np rest (vs @ [View iss (Some choice) importance]) s2))))"

text \<open>\<^verbatim>\<open>Person.__init__\<close>\<close>

definition Person :: "'s np_random \<Rightarrow> population_view list \<Rightarrow> 's \<Rightarrow> error + person \<times> 's" where
  "Person np population_views s =
     (case decide_views np population_views [] s of
        Inl e \<Rightarrow> Inl e
      | Inr (vs, s') \<Rightarrow>
          Inr (\<lparr>person.views = sort_key (\<lambda>x. issue.name (view.issue x)) vs\<rparr>, s'))"

record population =
  size :: int
  name :: string
  population_views :: "population_view list"
  people :: "person list"

text \<open>\<^verbatim>\<open>Population._generate_people\<close>: \<open>n\<close> iterations of \<^verbatim>\<open>range(self.size)\<close> remain.\<close>

fun generate_people ::
  "'s np_random \<Rightarrow> population_view list \<Rightarrow> nat \<Rightarrow> person list \<Rightarrow> 's \<Rightarrow> error + person list \<times> 's"
  where
  "generate_people np pvs 0 ps s = Inr (ps, s)"
| "generate_people np pvs (Suc n) ps s =
     (case Person np pvs s of
        Inl e \<Rightarrow> Inl e
      | Inr (p, s') \<Rightarrow> generate_people np pvs n (ps @ [p]) s')"

text \<open>\<^verbatim>\<open>Population.__init__\<close>; \<^verbatim>\<open>range\<close> of a negative size is empty.\<close>

definition Population ::
  "'s np_random \<Rightarrow> string \<Rightarrow> int \<Rightarrow> population_view list \<Rightarrow> 's \<Rightarrow> error + population \<times> 's" where
  "Population np n sz pvs s =
     (case generate_people np pvs (nat sz) [] s of
        Inl e \<Rightarrow> Inl e
      | Inr (ps, s') \<Rightarrow>
          Inr (\<lparr>size = sz, name = n, population_views = pvs, people = ps\<rparr>, s'))"

section \<open>Building the election from its settings\<close>

text \<open>The settings document, as \<^verbatim>\<open>json.load\<close> returns it, with the keys the code reads.\<close>

record issue_setting =
  name :: string
  stances :: "string list"

record view_setting =
  issue :: string
  stance :: string

record candidate_setting =
  name :: string
  views :: "view_setting list"

record issue_view_setting =
  name :: string
  weight :: real
  weight_variance :: real
  stances :: "real pydict"

record population_setting =
  name :: string
  size :: int
  issue_views :: "issue_view_setting list"

record settings =
  issues :: "issue_setting list"
  candidates :: "candidate_setting list"
  populations :: "population_setting list"

definition generate_issues :: "issue_setting list \<Rightarrow> issue list" where
  "generate_issues issue_settings =
     sort_key issue.name
       (map (\<lambda>i. Issue (issue_setting.name i) (issue_setting.stances i)) issue_settings)"

definition generate_candidates :: "candidate_setting list \<Rightarrow> issue list \<Rightarrow> candidate list" where
  "generate_candidates candidate_settings iss =
     map (\<lambda>c.
       let cviews = sort_key view_setting.issue (candidate_setting.views c);
           vs = map (\<lambda>(cview, i). View i (Some (view_setting.stance cview)) 1) (zip cviews iss)
       in Candidate (candidate_setting.name c) vs) candidate_settings"

fun generate_populations ::
  "'s np_random \<Rightarrow> population_setting list \<Rightarrow> issue list \<Rightarrow> 's \<Rightarrow> error + population list \<times> 's"
  where
  "generate_populations np [] iss s = Inr ([], s)"
| "generate_populations np (pop # rest) iss s =
     (let ivs = sort_key issue_view_setting.name (issue_views pop);
          pop_views = map (\<lambda>(v, i).
             \<lparr>population_view.issue = i, proportions = issue_view_setting.stances v,
              weight = issue_view_setting.weight v,
              weight_variance = issue_view_setting.weight_variance v\<rparr>) (zip ivs iss)
      in case Population np (population_setting.name pop) (population_setting.size pop) pop_views s of
           Inl e \<Rightarrow> Inl e
         | Inr (p, s') \<Rightarrow>
             (case generate_populations np rest iss s' of
                Inl e \<Rightarrow> Inl e
              | Inr (ps, s'') \<Rightarrow> Inr (p # ps, s'')))"

section \<open>Running the election\<close>

text \<open>
  The voting loops of \<^verbatim>\<open>run_election\<close>. An exception raised by a vote ends the run.
  The state is the candidate list and \<^verbatim>\<open>all_people\<close>.
\<close>

fun people_vote ::
  "(real \<Rightarrow> real \<Rightarrow> real) \<Rightarrow> person list \<Rightarrow> candidate list \<Rightarrow> person list \<Rightarrow>
     error + candidate list \<times> person list" where
  "people_vote fadd [] cs all_people = Inr (cs, all_people)"
| "people_vote fadd (p # ps) cs all_people =
     (case vote fadd p cs of
        (Inl e, _) \<Rightarrow> Inl e
      | (Inr _, cs') \<Rightarrow> people_vote fadd ps cs' (all_people @ [p]))"

fun populations_vote ::
  "(real \<Rightarrow> real \<Rightarrow> real) \<Rightarrow> population list \<Rightarrow> candidate list \<Rightarrow> person list \<Rightarrow>
     error + candidate list \<times> person list" where
  "populations_vote fadd [] cs all_people = Inr (cs, all_people)"
| "populations_vote fadd (pop # pops) cs all_people =
     (case people_vote fadd (people pop) cs all_people of
        Inl e \<Rightarrow> Inl e
      | Inr (cs', all_people') \<Rightarrow> populations_vote fadd pops cs' all_people')"

record election_result =
  ranking :: "candidate list"
  winner :: candidate
  loser :: candidate
  all_voters :: "person list"

text \<open>
  The ranking of \<^verbatim>\<open>run_election\<close>: \<^verbatim>\<open>candidates[0]\<close> of an empty list raises
  \<open>IndexError\<close>; \<^verbatim>\<open>candidates[-1]\<close> is the last element.
\<close>

definition rank_candidates :: "candidate list \<Rightarrow> error + candidate list \<times> candidate \<times> candidate"
  where
  "rank_candidates cs =
     (let sorted_cs = sorted_reverse votes cs
      in case sorted_cs of
           [] \<Rightarrow> Inl IndexError
         | w # _ \<Rightarrow> Inr (sorted_cs, w, last sorted_cs))"

text \<open>
  \<^verbatim>\<open>run_election\<close> from the loaded settings up to the announcement of winner and loser.
\<close>

definition run_election ::
  "(real \<Rightarrow> real \<Rightarrow> real) \<Rightarrow> 's np_random \<Rightarrow> settings \<Rightarrow> 's \<Rightarrow> error + election_result"
  where
  "run_election fadd np st s =
     (let iss = generate_issues (issues st);
          cs = generate_candidates (candidates st) iss
      in case generate_populations np (populations st) iss s of
           Inl e \<Rightarrow> Inl e
         | Inr (pops, _) \<Rightarrow>
             (case populations_vote fadd pops cs [] of
                Inl e \<Rightarrow> Inl e
              | Inr (cs', all_people) \<Rightarrow>
                  (case rank_candidates cs' of
                     Inl e \<Rightarrow> Inl e
                   | Inr (sorted_cs, w, l) \<Rightarrow>
                       Inr \<lparr>ranking = sorted_cs, winner = w, loser = l,
                            all_voters = all_people\<rparr>)))"

section \<open>The majority candidate\<close>

record issue_votes =
  issue :: issue
  stance_votes :: "int pydict"

definition IssueVotes :: "issue \<Rightarrow> issue_votes" where
  "IssueVotes i = \<lparr>issue = i, stance_votes = zero_dict (issue.stances i)\<rparr>"

text \<open>
  The loop of \<^verbatim>\<open>IssueVotes.get_majority_stance\<close> over \<^verbatim>\<open>stance_votes.items()\<close>, with the
  current \<^verbatim>\<open>biggest\<close> and \<^verbatim>\<open>maj_stance\<close>.
\<close>

fun majority_loop :: "(string \<times> int) list \<Rightarrow> int \<Rightarrow> string option \<Rightarrow> string option" where
  "majority_loop [] biggest maj_stance = maj_stance"
| "majority_loop ((k, v) # kvs) biggest maj_stance =
     (if v > biggest then majority_loop kvs v (Some k)
      else majority_loop kvs biggest maj_stance)"

definition get_majority_stance :: "issue_votes \<Rightarrow> string option" where
  "get_majority_stance iv = majority_loop (stance_votes iv) 0 None"

text \<open>\<^verbatim>\<open>IssueVotes.vote_for_stance\<close>; \<open>None\<close> is never a key.\<close>

definition vote_for_stance :: "issue_votes \<Rightarrow> string option \<Rightarrow> error + issue_votes" where
  "vote_for_stance iv st =
     (case st of
        None \<Rightarrow> Inl KeyError
      | Some s \<Rightarrow>
          (case incr_key (stance_votes iv) s of
             Inl e \<Rightarrow> Inl e
           | Inr d \<Rightarrow> Inr (iv\<lparr>stance_votes := d\<rparr>)))"

text \<open>
  The inner loop of \<^verbatim>\<open>generate_majority_candidate\<close> over \<^verbatim>\<open>zip(p.views, issue_votes)\<close>:
  the tallies beyond the shorter list stay as they are.
\<close>

fun tally_views :: "view list \<Rightarrow> issue_votes list \<Rightarrow> error + issue_votes list" where
  "tally_views (v # vs) (iv # ivs) =
     (case vote_for_stance iv (view.stance v) of
        Inl e \<Rightarrow> Inl e
      | Inr iv' \<Rightarrow>
          (case tally_views vs ivs of Inl e \<Rightarrow> Inl e | Inr ivs' \<Rightarrow> Inr (iv' # ivs')))"
| "tally_views _ ivs = Inr ivs"

fun tally_people :: "person list \<Rightarrow> issue_votes list \<Rightarrow> error + issue_votes list" where
  "tally_people [] ivs = Inr ivs"
| "tally_people (p # ps) ivs =
     (case tally_views (person.views p) ivs of
        Inl e \<Rightarrow> Inl e
      | Inr ivs' \<Rightarrow> tally_people ps ivs')"

definition majority_views :: "issue list \<Rightarrow> issue_votes list \<Rightarrow> view list" where
  "majority_views iss ivs = map (\<lambda>(i, iv). View i (get_majority_stance iv) 1) (zip iss ivs)"

definition generate_majority_candidate :: "person list \<Rightarrow> issue list \<Rightarrow> error + candidate" where
  "generate_majority_candidate ps iss =
     (case tally_people ps (map IssueVotes iss) of
        Inl e \<Rightarrow> Inl e
      | Inr ivs \<Rightarrow> Inr (Candidate ''majority'' (majority_views iss ivs)))"

text \<open>
  The tally the claims speak of: how many of the voters hold stance \<open>s\<close> in the view
  at position \<open>i\<close> of their list (position \<open>i\<close> is where the inner loop of
  \<^verbatim>\<open>generate_majority_candidate\<close> meets the \<open>i\<close>-th issue).
\<close>

definition stance_count :: "person list \<Rightarrow> nat \<Rightarrow> string \<Rightarrow> nat" where
  "stance_count ps i s =
     length (filter (\<lambda>p. i < length (person.views p) \<and>
                          view.stance (person.views p ! i) = Some s) ps)"

section \<open>A small election used in the examples\<close>

definition ex_issue_a :: issue where
  "ex_issue_a = Issue ''arts'' [''no'', ''yes'']"

definition ex_issue_b :: issue where
  "ex_issue_b = Issue ''bikes'' [''no'', ''yes'']"

definition ex_voter :: person where
  "ex_voter =
     \<lparr>person.views = [View ex_issue_a (Some ''yes'') 1, View ex_issue_b (Some ''no'') 1]\<rparr>"

definition ex_alice :: candidate where
  "ex_alice =
     Candidate ''Alice'' [View ex_issue_b (Some ''yes'') 1, View ex_issue_a (Some ''yes'') 1]"

definition ex_bob :: candidate where
  "ex_bob =
     Candidate ''Bob'' [View ex_issue_a (Some ''no'') 1, View ex_issue_b (Some ''no'') 1]"

definition ex_carol :: candidate where
  "ex_carol = Candidate ''Carol'' [View ex_issue_b (Some ''no'') 1]"

text \<open>
  A stand-in for the addition of doubles on the sums the examples make: it is exact, as
  double addition is on small integers, except that \<open>2 ^ 53 + 1\<close> rounds to \<open>2 ^ 53\<close>,
  as it does in IEEE arithmetic.
\<close>

definition ex_fadd :: "real \<Rightarrow> real \<Rightarrow> real" where
  "ex_fadd x y = (if x + y = 2 ^ 53 + 1 then 2 ^ 53 else x + y)"

text \<open>A voter for whom one issue weighs \<open>2 ^ 53\<close> and the other 1, and two candidates.\<close>

definition ex_heavy_voter :: person where
  "ex_heavy_voter =
     \<lparr>person.views = [View ex_issue_a (Some ''yes'') (2 ^ 53), View ex_issue_b (Some ''yes'') 1]\<rparr>"

definition ex_dora :: candidate where
  "ex_dora =
     Candidate ''Dora'' [View ex_issue_a (Some ''yes'') 1, View ex_issue_b (Some ''no'') 1]"

definition ex_eve :: candidate where
  "ex_eve =
     Candidate ''Eve'' [View ex_issue_a (Some ''yes'') 1, View ex_issue_b (Some ''yes'') 1]"

text \<open>A deterministic stand-in for the random source, and the settings of a two-voter town.\<close>

definition ex_np :: "nat np_random" where
  "ex_np =
     \<lparr>random_choice = (\<lambda>s a p. if a = [] then Inl ValueError else Inr (a ! (if s mod 8 < 4 then 0 else length a - 1), Suc s)),
      random_normal = (\<lambda>s loc scale. if scale < 0 then Inl ValueError
                        else Inr (if s mod 4 = 1 then loc + scale else loc - 2 * scale, Suc s))\<rparr>"

definition ex_pop_views :: "population_view list" where
  "ex_pop_views =
     [\<lparr>population_view.issue = ex_issue_a, proportions = [(''no'', 1/4), (''yes'', 3/4)],
       weight = 1, weight_variance = 1\<rparr>,
      \<lparr>population_view.issue = ex_issue_b, proportions = [(''yes'', 1/2), (''no'', 1/2)],
       weight = 1, weight_variance = 1\<rparr>]"

definition ex_issue_settings :: "issue_setting list" where
  "ex_issue_settings =
     [\<lparr>issue_setting.name = ''bikes'', stances = [''no'', ''yes'']\<rparr>,
      \<lparr>issue_setting.name = ''arts'', stances = [''no'', ''yes'']\<rparr>]"

definition ex_population_settings :: "population_setting list" where
  "ex_population_settings =
     [\<lparr>population_setting.name = ''town'', size = 2,
       issue_views =
         [\<lparr>issue_view_setting.name = ''bikes'', weight = 1, weight_variance = 1,
           stances = [(''yes'', 1/2), (''no'', 1/2)]\<rparr>,
          \<lparr>issue_view_setting.name = ''arts'', weight = 1, weight_variance = 1,
           stances = [(''no'', 1/4), (''yes'', 3/4)]\<rparr>]\<rparr>]"

definition ex_settings :: settings where
  "ex_settings =
     \<lparr>issues = ex_issue_settings,
      candidates =
        [\<lparr>candidate_setting.name = ''Alice'',
          views = [\<lparr>view_setting.issue = ''bikes'', stance = ''yes''\<rparr>,
                   \<lparr>view_setting.issue = ''arts'', stance = ''yes''\<rparr>]\<rparr>,
         \<lparr>candidate_setting.name = ''Bob'',
          views = [\<lparr>view_setting.issue = ''arts'', stance = ''no''\<rparr>,
                   \<lparr>view_setting.issue = ''bikes'', stance = ''no''\<rparr>]\<rparr>],
      populations = ex_population_settings\<rparr>"

text \<open>Carol declares no view on \<open>arts\<close>.\<close>

definition ex_settings_omit :: settings where
  "ex_settings_omit =
     \<lparr>issues = ex_issue_settings,
      candidates =
        [\<lparr>candidate_setting.name = ''Carol'',
          views = [\<lparr>view_setting.issue = ''bikes'', stance = ''no''\<rparr>]\<rparr>],
      populations = ex_population_settings\<rparr>"

definition ex_voter1 :: person where
  "ex_voter1 = \<lparr>person.views = [View ex_issue_a (Some ''no'') 2, View ex_issue_b (Some ''no'') 0]\<rparr>"

definition ex_voter2 :: person where
  "ex_voter2 = \<lparr>person.views = [View ex_issue_a (Some ''yes'') 2, View ex_issue_b (Some ''yes'') 0]\<rparr>"

definition ex_town :: population where
  "ex_town = \<lparr>population.size = 2, name = ''town'', population_views = ex_pop_views,
              people = [ex_voter1, ex_voter2]\<rparr>"

section \<open>Stable sorting in descending order\<close>

lemma length_sorted_reverse: "length (sorted_reverse f xs) = length xs"
  by (simp add: sorted_reverse_def)

lemma set_sorted_reverse: "set (sorted_reverse f xs) = set xs"
  by (simp add: sorted_reverse_def)

lemma mset_sorted_reverse: "mset (sorted_reverse f xs) = mset xs"
  by (simp add: sorted_reverse_def)

lemma sorted_reverse_Nil_iff: "sorted_reverse f xs = [] \<longleftrightarrow> xs = []"
  using length_sorted_reverse[of f xs] by (metis length_0_conv)

lemma sorted_reverse_descending: "sorted (rev (map f (sorted_reverse f xs)))"
  by (simp add: sorted_reverse_def rev_map)

lemma sorted_reverse_stable:
  "filter (\<lambda>y. f y = k) (sorted_reverse f xs) = filter (\<lambda>y. f y = k) xs"
  by (simp add: sorted_reverse_def rev_filter[symmetric] sort_key_stable)

lemma sorted_last_is_Max:
  assumes "sorted (map f ys)" "ys \<noteq> []"
  shows "f (last ys) = Max (f ` set ys)"
proof (rule sym, rule Max_eqI)
  show "finite (f ` set ys)" by simp
  show "f (last ys) \<in> f ` set ys" using assms(2) by simp
  fix y assume "y \<in> f ` set ys"
  then obtain n where n: "n < length ys" "y = f (ys ! n)" by (auto simp: in_set_conv_nth)
  have "map f ys ! n \<le> map f ys ! (length ys - 1)"
    using assms n by (intro sorted_nth_mono) auto
  then show "y \<le> f (last ys)" using n assms(2) by (simp add: last_conv_nth)
qed

lemma sorted_hd_is_Min:
  assumes "sorted (map f ys)" "ys \<noteq> []"
  shows "f (hd ys) = Min (f ` set ys)"
proof (rule sym, rule Min_eqI)
  show "finite (f ` set ys)" by simp
  show "f (hd ys) \<in> f ` set ys" using assms(2) by simp
  fix y assume "y \<in> f ` set ys"
  then obtain n where n: "n < length ys" "y = f (ys ! n)" by (auto simp: in_set_conv_nth)
  have "map f ys ! 0 \<le> map f ys ! n"
    using assms n by (intro sorted_nth_mono) auto
  then show "f (hd ys) \<le> y" using n assms(2) by (simp add: hd_conv_nth)
qed

lemma last_filter_keeps:
  "xs \<noteq> [] \<Longrightarrow> P (last xs) \<Longrightarrow> last (filter P xs) = last xs"
proof (induction xs)
  case Nil then show ?case by simp
next
  case (Cons x xs)
  show ?case
  proof (cases "xs = []")
    case True with Cons.prems show ?thesis by simp
  next
    case False
    with Cons.prems have pl: "P (last xs)" by simp
    then have "filter P xs \<noteq> []" using False by (metis filter_empty_conv last_in_set)
    then show ?thesis using Cons.IH[OF False pl] False by simp
  qed
qed

lemma hd_sorted_reverse:
  assumes "xs \<noteq> []"
  shows "hd (sorted_reverse f xs) = hd (filter (\<lambda>x. f x = Max (f ` set xs)) xs)"
proof -
  let ?S = "sort_key f (rev xs)"
  let ?m = "Max (f ` set xs)"
  have ne: "?S \<noteq> []" using assms by (metis length_sort length_rev length_0_conv)
  have m: "f (last ?S) = ?m"
    using sorted_last_is_Max[of f ?S] ne by simp
  have "hd (sorted_reverse f xs) = last ?S"
    by (simp add: sorted_reverse_def hd_rev)
  also have "\<dots> = last (filter (\<lambda>x. f x = ?m) ?S)"
    using m ne by (simp add: last_filter_keeps)
  also have "\<dots> = last (rev (filter (\<lambda>x. f x = ?m) xs))"
    by (simp add: sort_key_stable rev_filter)
  also have "\<dots> = hd (filter (\<lambda>x. f x = ?m) xs)"
    by (simp add: last_rev)
  finally show ?thesis .
qed

lemma last_sorted_reverse:
  assumes "xs \<noteq> []"
  shows "last (sorted_reverse f xs) = last (filter (\<lambda>x. f x = Min (f ` set xs)) xs)"
proof -
  let ?S = "sort_key f (rev xs)"
  let ?m = "Min (f ` set xs)"
  have ne: "?S \<noteq> []" using assms by (metis length_sort length_rev length_0_conv)
  have m: "f (hd ?S) = ?m"
    using sorted_hd_is_Min[of f ?S] ne by simp
  have "last (sorted_reverse f xs) = hd ?S"
    by (simp add: sorted_reverse_def last_rev)
  also have "\<dots> = hd (filter (\<lambda>x. f x = ?m) ?S)"
    using m ne by (cases ?S) auto
  also have "\<dots> = hd (rev (filter (\<lambda>x. f x = ?m) xs))"
    by (simp add: sort_key_stable rev_filter)
  also have "\<dots> = last (filter (\<lambda>x. f x = ?m) xs)"
    by (simp add: hd_rev)
  finally show ?thesis .
qed

lemma hd_filter_first:
  "\<exists>x \<in> set xs. P x \<Longrightarrow>
   \<exists>i < length xs. hd (filter P xs) = xs ! i \<and> P (xs ! i) \<and> (\<forall>j < i. \<not> P (xs ! j))"
proof (induction xs)
  case Nil then show ?case by simp
next
  case (Cons x xs)
  show ?case
  proof (cases "P x")
    case True
    then show ?thesis by (intro exI[of _ 0]) simp
  next
    case False
    with Cons.prems have "\<exists>x \<in> set xs. P x" by simp
    from Cons.IH[OF this] obtain i where i: "i < length xs" "hd (filter P xs) = xs ! i"
      "P (xs ! i)" "\<forall>j < i. \<not> P (xs ! j)" by blast
    show ?thesis
    proof (intro exI[of _ "Suc i"] conjI allI impI)
      fix j assume "j < Suc i"
      then show "\<not> P ((x # xs) ! j)" using False i(4) by (cases j) auto
    qed (use i False in auto)
  qed
qed

lemma last_filter_last:
  "\<exists>x \<in> set xs. P x \<Longrightarrow>
   \<exists>i < length xs. last (filter P xs) = xs ! i \<and> P (xs ! i) \<and>
      (\<forall>j < length xs. i < j \<longrightarrow> \<not> P (xs ! j))"
proof -
  assume ex: "\<exists>x \<in> set xs. P x"
  then have "\<exists>x \<in> set (rev xs). P x" by simp
  from hd_filter_first[OF this] obtain i where i: "i < length xs"
    "hd (filter P (rev xs)) = rev xs ! i" "P (rev xs ! i)" "\<forall>j < i. \<not> P (rev xs ! j)"
    by auto
  let ?k = "length xs - Suc i"
  have k: "?k < length xs" using i(1) by simp
  have ri: "rev xs ! i = xs ! ?k" using i(1) by (simp add: rev_nth)
  have "last (filter P xs) = hd (filter P (rev xs))"
    by (simp add: rev_filter[symmetric] hd_rev)
  then have a: "last (filter P xs) = xs ! ?k" using i(2) ri by simp
  have b: "P (xs ! ?k)" using i(3) ri by simp
  have c: "\<forall>j < length xs. ?k < j \<longrightarrow> \<not> P (xs ! j)"
  proof (intro allI impI)
    fix j assume j: "j < length xs" "?k < j"
    then have lt: "length xs - Suc j < i" by arith
    have "rev xs ! (length xs - Suc j) = xs ! j" using j(1) by (simp add: rev_nth)
    then show "\<not> P (xs ! j)" using i(4) lt by metis
  qed
  show ?thesis using k a b c by blast
qed

section \<open>The agreement score\<close>

lemma count_agreements_aligned:
  "\<forall>(i, j) \<in> set ps. issue.name (view.issue i) = issue.name (view.issue j) \<Longrightarrow>
   count_agreements fadd ps acc =
     Inr (foldl fadd acc
            (map (\<lambda>(i, j). view.weight j)
               (filter (\<lambda>(i, j). view.stance i = view.stance j) ps)))"
proof (induction ps arbitrary: acc)
  case Nil show ?case by simp
next
  case (Cons p ps)
  obtain i j where p: "p = (i, j)" by (cases p)
  from Cons.prems have al: "\<forall>(i, j) \<in> set ps. issue.name (view.issue i) = issue.name (view.issue j)"
    and hd: "issue.name (view.issue i) = issue.name (view.issue j)" by (auto simp: p)
  show ?case using Cons.IH[OF al] hd by (simp add: p)
qed




lemma views_aligned_nth:
  "views_aligned v c \<longleftrightarrow>
   (\<forall>n. n < length (candidate.views c) \<and> n < length (person.views v) \<longrightarrow>
      issue.name (view.issue (candidate.views c ! n)) = issue.name (view.issue (person.views v ! n)))"
  by (auto simp: views_aligned_def list_all_length)

lemma count_agreements_misaligned:
  "\<exists>(i, j) \<in> set ps. issue.name (view.issue i) \<noteq> issue.name (view.issue j) \<Longrightarrow>
   count_agreements fadd ps acc = Inl Exception"
proof (induction ps arbitrary: acc)
  case Nil then show ?case by simp
next
  case (Cons p ps)
  obtain i j where p: "p = (i, j)" by (cases p)
  show ?case
  proof (cases "issue.name (view.issue i) = issue.name (view.issue j)")
    case True
    with Cons.prems have "\<exists>(i, j) \<in> set ps. issue.name (view.issue i) \<noteq> issue.name (view.issue j)"
      by (auto simp: p)
    from Cons.IH[OF this] True show ?thesis by (simp add: p)
  next
    case False then show ?thesis by (simp add: p)
  qed
qed

lemma agreement_score_aligned:
  "views_aligned v c \<Longrightarrow> agreement_score fadd v c = Inr (spec_agreement_score fadd v c)"
  unfolding agreement_score_def views_aligned_def spec_agreement_score_def
  by (subst count_agreements_aligned) (auto simp: list_all_iff)

lemma agreement_score_misaligned:
  "\<not> views_aligned v c \<Longrightarrow> agreement_score fadd v c = Inl Exception"
  unfolding agreement_score_def views_aligned_def
  by (intro count_agreements_misaligned) (auto simp: list_all_iff)

lemma agreement_score_Inr:
  "agreement_score fadd v c = Inr a \<Longrightarrow> views_aligned v c \<and> a = spec_agreement_score fadd v c"
  using agreement_score_aligned[of v c fadd] agreement_score_misaligned[of v c fadd]
  by (cases "views_aligned v c") auto

lemma all_agreements_misaligned:
  "\<exists>c \<in> set cs. \<not> views_aligned v c \<Longrightarrow> all_agreements fadd v cs k = Inl Exception"
proof (induction cs arbitrary: k)
  case Nil then show ?case by simp
next
  case (Cons c cs)
  show ?case
  proof (cases "views_aligned v c")
    case False
    then show ?thesis by (simp add: agreement_score_misaligned)
  next
    case True
    then obtain a where a: "agreement_score fadd v c = Inr a"
      using agreement_score_aligned by blast
    from True Cons.prems have "\<exists>c \<in> set cs. \<not> views_aligned v c" by auto
    from Cons.IH[OF this, of "Suc k"] a show ?thesis by simp
  qed
qed

lemma all_agreements_shape:
  "all_agreements fadd v cs k = Inr ags \<Longrightarrow>
   length ags = length cs \<and>
   (\<forall>j < length cs. candidate_ix (ags ! j) = k + j \<and>
       agreement_score fadd v (cs ! j) = Inr (agreements (ags ! j)))"
proof (induction cs arbitrary: k ags)
  case Nil then show ?case by simp
next
  case (Cons c cs)
  from Cons.prems obtain a rest where a: "agreement_score fadd v c = Inr a"
    and rest: "all_agreements fadd v cs (Suc k) = Inr rest"
    and ags: "ags = \<lparr>candidate_ix = k, agreements = a\<rparr> # rest"
    by (auto split: sum.splits)
  from Cons.IH[OF rest] have len: "length rest = length cs"
    and ih: "\<forall>j < length cs. candidate_ix (rest ! j) = Suc k + j \<and>
       agreement_score fadd v (cs ! j) = Inr (agreements (rest ! j))" by auto
  show ?case
  proof (intro conjI allI impI)
    show "length ags = length (c # cs)" using len ags by simp
  next
    fix j assume "j < length (c # cs)"
    then show "candidate_ix (ags ! j) = k + j" using ih ags by (cases j) auto
  next
    fix j assume "j < length (c # cs)"
    then show "agreement_score fadd v ((c # cs) ! j) = Inr (agreements (ags ! j))"
      using ih ags a by (cases j) auto
  qed
qed

lemma all_agreements_aligned:
  "\<forall>c \<in> set cs. views_aligned v c \<Longrightarrow> \<exists>ags. all_agreements fadd v cs k = Inr ags"
proof (induction cs arbitrary: k)
  case Nil then show ?case by simp
next
  case (Cons c cs)
  from Cons.prems have "views_aligned v c" by simp
  from agreement_score_aligned[OF this] obtain a where a: "agreement_score fadd v c = Inr a"
    by blast
  from Cons.prems have "\<forall>c \<in> set cs. views_aligned v c" by simp
  from Cons.IH[OF this, of "Suc k"] obtain rest where "all_agreements fadd v cs (Suc k) = Inr rest" ..
  with a show ?case by simp
qed

lemma all_agreements_error:
  "all_agreements fadd v cs k = Inl e \<Longrightarrow> e = Exception"
  using all_agreements_misaligned[where cs = cs and v = v and k = k and fadd = fadd]
    all_agreements_aligned[where cs = cs and v = v and k = k and fadd = fadd] by fastforce

text \<open>What a successful vote does.\<close>

lemma vote_chosen:
  assumes ags: "all_agreements fadd v cs 0 = Inr ags" and ne: "cs \<noteq> []"
  shows "\<exists>k < length cs. 
           vote fadd v cs = (Inr (), cs[k := receive_vote (cs ! k)]) \<and>
           (\<forall>j < length cs. agreements (ags ! j) \<le> agreements (ags ! k)) \<and>
           (\<forall>j < k. agreements (ags ! j) < agreements (ags ! k))"
proof -
  from all_agreements_shape[OF ags] have len: "length ags = length cs"
    and ix: "\<forall>j < length cs. candidate_ix (ags ! j) = j" by auto
  have ne': "ags \<noteq> []" using len ne by auto
  let ?M = "Max (agreements ` set ags)"
  have "?M \<in> agreements ` set ags" using ne' by (intro Max_in) auto
  then have "\<exists>x \<in> set ags. agreements x = ?M" by auto
  from hd_filter_first[OF this] obtain i where i: "i < length ags"
    "hd (filter (\<lambda>x. agreements x = ?M) ags) = ags ! i" "agreements (ags ! i) = ?M"
    "\<forall>j < i. agreements (ags ! j) \<noteq> ?M" by blast
  have le: "\<forall>j < length ags. agreements (ags ! j) \<le> ?M" by simp
  have hd: "hd (sorted_reverse agreements ags) = ags ! i"
    using hd_sorted_reverse[OF ne', of agreements] i(2) by simp
  have "sorted_reverse agreements ags \<noteq> []" using ne' by (simp add: sorted_reverse_Nil_iff)
  then obtain rest where srt: "sorted_reverse agreements ags = ags ! i # rest"
    using hd by (cases "sorted_reverse agreements ags") auto
  have "candidate_ix (ags ! i) = i" using ix i(1) len by simp
  then have "vote fadd v cs = (Inr (), cs[i := receive_vote (cs ! i)])"
    by (simp add: vote_def ags srt)
  moreover have "\<forall>j < length cs. agreements (ags ! j) \<le> agreements (ags ! i)"
    using le i(3) len by simp
  moreover have "\<forall>j < i. agreements (ags ! j) < agreements (ags ! i)"
  proof (intro allI impI)
    fix j assume j: "j < i"
    then have "agreements (ags ! j) \<le> ?M" "agreements (ags ! j) \<noteq> ?M"
      using le i(1) i(4) by auto
    then show "agreements (ags ! j) < agreements (ags ! i)" using i(3) by simp
  qed
  ultimately show ?thesis using i(1) len by auto
qed

lemma vote_cases:
  "vote fadd v cs = (Inl Exception, cs) \<or> vote fadd v cs = (Inl IndexError, cs) \<and> cs = [] \<or>
   (\<exists>k < length cs. vote fadd v cs = (Inr (), cs[k := receive_vote (cs ! k)]))"
proof (cases "all_agreements fadd v cs 0")
  case (Inl e)
  then show ?thesis using all_agreements_error[OF Inl] by (simp add: vote_def)
next
  case (Inr ags)
  show ?thesis
  proof (cases "cs = []")
    case True then show ?thesis by (simp add: vote_def sorted_reverse_def)
  next
    case False
    from vote_chosen[OF Inr False] show ?thesis by blast
  qed
qed

section \<open>Properties of the decision procedure\<close>

text \<open>
  C9: with an empty candidate list \<^verbatim>\<open>Person.vote\<close> raises \<open>IndexError\<close> (at
  \<^verbatim>\<open>agreements[0]\<close>); it neither returns normally nor changes anything.
\<close>

theorem vote_no_candidates: "vote fadd self [] = (Inl IndexError, [])"
  by (simp add: vote_def sorted_reverse_def)

text \<open>Unfolding the example election.\<close>

lemmas ex_defs = ex_voter_def ex_alice_def ex_bob_def ex_carol_def Candidate_def View_def
  ex_issue_a_def ex_issue_b_def Issue_def


lemmas ex_heavy_defs = ex_heavy_voter_def ex_dora_def ex_eve_def Candidate_def View_def
  ex_issue_a_def ex_issue_b_def Issue_def



text \<open>
  C2, as the code has it: for a non-empty candidate list in which every candidate's views
  name the same issue as the voter's at every compared position, every candidate's score
  is the sum of the matching weights, the vote succeeds and goes to the candidate at some
  position \<open>k\<close> whose score is maximal, every candidate before \<open>k\<close> scores strictly
  less (so the earliest maximal candidate wins a tie), and the only change is that
  candidate's counter, which goes up by exactly 1.
\<close>

theorem vote_first_maximum:
  assumes ne: "cs \<noteq> []" and al: "\<forall>c \<in> set cs. views_aligned v c"
  shows "\<exists>k < length cs.
           (\<forall>j < length cs.
              agreement_score fadd v (cs ! j) = Inr (spec_agreement_score fadd v (cs ! j)) \<and>
              spec_agreement_score fadd v (cs ! j) \<le> spec_agreement_score fadd v (cs ! k)) \<and>
           (\<forall>j < k. spec_agreement_score fadd v (cs ! j) < spec_agreement_score fadd v (cs ! k)) \<and>
           vote fadd v cs = (Inr (), cs[k := (cs ! k)\<lparr>votes := votes (cs ! k) + 1\<rparr>]) \<and>
           (\<forall>j < length cs. votes (snd (vote fadd v cs) ! j) =
               (if j = k then votes (cs ! j) + 1 else votes (cs ! j)))"
proof -
  from all_agreements_aligned[OF al, where k = 0 and fadd = fadd]
  obtain ags where ags: "all_agreements fadd v cs 0 = Inr ags" ..
  from all_agreements_shape[OF ags]
  have "\<forall>j < length cs. agreement_score fadd v (cs ! j) = Inr (agreements (ags ! j))" by simp
  then have sc: "\<forall>j < length cs. agreements (ags ! j) = spec_agreement_score fadd v (cs ! j)"
    using agreement_score_Inr by blast
  from vote_chosen[OF ags ne] obtain k where k: "k < length cs"
    "vote fadd v cs = (Inr (), cs[k := receive_vote (cs ! k)])"
    "\<forall>j < length cs. agreements (ags ! j) \<le> agreements (ags ! k)"
    "\<forall>j < k. agreements (ags ! j) < agreements (ags ! k)" by blast
  have 1: "\<forall>j < length cs.
              agreement_score fadd v (cs ! j) = Inr (spec_agreement_score fadd v (cs ! j)) \<and>
              spec_agreement_score fadd v (cs ! j) \<le> spec_agreement_score fadd v (cs ! k)"
  proof (intro allI impI conjI)
    fix j assume j: "j < length cs"
    then have "views_aligned v (cs ! j)" using al by simp
    then show "agreement_score fadd v (cs ! j) = Inr (spec_agreement_score fadd v (cs ! j))"
      by (rule agreement_score_aligned)
    show "spec_agreement_score fadd v (cs ! j) \<le> spec_agreement_score fadd v (cs ! k)"
      using sc k(1) k(3) j by metis
  qed
  have 2: "\<forall>j < k. spec_agreement_score fadd v (cs ! j) < spec_agreement_score fadd v (cs ! k)"
  proof (intro allI impI)
    fix j assume j: "j < k"
    then have "j < length cs" using k(1) by simp
    then show "spec_agreement_score fadd v (cs ! j) < spec_agreement_score fadd v (cs ! k)"
      using sc k(1) k(4) j by metis
  qed
  have 3: "vote fadd v cs = (Inr (), cs[k := (cs ! k)\<lparr>votes := votes (cs ! k) + 1\<rparr>])"
    using k(2) by (simp add: receive_vote_def)
  have 4: "\<forall>j < length cs. votes (snd (vote fadd v cs) ! j) =
               (if j = k then votes (cs ! j) + 1 else votes (cs ! j))"
    using k(1) by (simp add: k(2) receive_vote_def nth_list_update)
  from k(1) 1 2 3 4 show ?thesis by blast
qed

text \<open>
  The forced tie: the example voter agrees with Alice on one issue and with Bob on the
  other, both with weight 1, and Alice, who comes first, receives the vote.
\<close>

theorem vote_first_maximum_witness:
  "vote ex_fadd ex_voter [ex_alice, ex_bob] = (Inr (), [ex_alice\<lparr>votes := 1\<rparr>, ex_bob]) \<and>
   spec_agreement_score ex_fadd ex_voter ex_alice = 1 \<and>
   spec_agreement_score ex_fadd ex_voter ex_bob = 1"
proof -
  have sa: "spec_agreement_score ex_fadd ex_voter ex_alice = 1"
    and sb: "spec_agreement_score ex_fadd ex_voter ex_bob = 1"
    by (simp_all add: spec_agreement_score_def ex_fadd_def ex_defs)
  have h1: "[ex_alice, ex_bob] \<noteq> []" by simp
  have h2: "\<forall>c \<in> set [ex_alice, ex_bob]. views_aligned ex_voter c"
    by (simp add: views_aligned_def ex_defs)
  from vote_first_maximum[OF h1 h2, where fadd = ex_fadd] obtain k where
    k: "k < length [ex_alice, ex_bob]"
    and first: "\<forall>j < k. spec_agreement_score ex_fadd ex_voter ([ex_alice, ex_bob] ! j)
                        < spec_agreement_score ex_fadd ex_voter ([ex_alice, ex_bob] ! k)"
    and v: "vote ex_fadd ex_voter [ex_alice, ex_bob] =
      (Inr (), [ex_alice, ex_bob][k := ([ex_alice, ex_bob] ! k)\<lparr>votes := votes ([ex_alice, ex_bob] ! k) + 1\<rparr>])"
    by blast
  have "k = 0"
  proof (rule ccontr)
    assume "k \<noteq> 0"
    with k have k1: "k = 1" by simp
    have "(0::nat) < k" using k1 by simp
    from first[rule_format, OF this] show False by (simp add: k1 sa sb)
  qed
  with v have "vote ex_fadd ex_voter [ex_alice, ex_bob] = (Inr (), [ex_alice\<lparr>votes := votes ex_alice + 1\<rparr>, ex_bob])"
    by simp
  moreover have "votes ex_alice = 0" by (simp add: ex_defs)
  ultimately show ?thesis using sa sb by simp
qed

text \<open>
  A tie made by rounding: Dora agrees with the heavy voter on the first issue only, Eve on
  both. Both score \<open>2 ^ 53\<close>, and Dora, who comes first, receives the vote.
\<close>

lemma ex_rounding_tie:
  "spec_agreement_score ex_fadd ex_heavy_voter ex_dora = 2 ^ 53 \<and>
   spec_agreement_score ex_fadd ex_heavy_voter ex_eve = 2 ^ 53 \<and>
   vote ex_fadd ex_heavy_voter [ex_dora, ex_eve] = (Inr (), [ex_dora\<lparr>votes := 1\<rparr>, ex_eve])"
  by (simp add: spec_agreement_score_def vote_def sorted_reverse_def agreement_score_def
      receive_vote_def ex_fadd_def ex_heavy_defs)

text \<open>
  C2 as stated fails for some voter and non-empty candidate list: Carol's only view is on
  another issue than the voter's first, the vote raises and nobody's counter changes.
\<close>

theorem vote_misaligned_counterexample:
  "[ex_carol] \<noteq> [] \<and> vote ex_fadd ex_voter [ex_carol] = (Inl Exception, [ex_carol]) \<and>
   votes ex_carol = 0"
  by (simp add: vote_def agreement_score_def ex_defs)

text \<open>
  C8: if at some position of \<^verbatim>\<open>zip(c.views, self.views)\<close>, for some candidate \<open>c\<close> of the
  list, the two views name different issues, then no score is produced for \<open>c\<close> and the vote
  ends with the exception, leaving every candidate as it was.
\<close>

theorem vote_issue_mismatch:
  assumes c: "c \<in> set cs"
    and n: "n < length (candidate.views c)" "n < length (person.views v)"
    and diff: "issue.name (view.issue (candidate.views c ! n)) \<noteq>
               issue.name (view.issue (person.views v ! n))"
  shows "agreement_score fadd v c = Inl Exception \<and> vote fadd v cs = (Inl Exception, cs)"
proof -
  have na: "\<not> views_aligned v c" using n diff by (auto simp: views_aligned_nth)
  then have "all_agreements fadd v cs 0 = Inl Exception"
    using c by (intro all_agreements_misaligned) auto
  then show ?thesis using na by (simp add: vote_def agreement_score_misaligned)
qed

text \<open>Carol's only view is on the second issue, the voter's first view on the first.\<close>

theorem vote_issue_mismatch_witness:
  "agreement_score ex_fadd ex_voter ex_carol = Inl Exception \<and>
   vote ex_fadd ex_voter [ex_alice, ex_carol] = (Inl Exception, [ex_alice, ex_carol])"
proof -
  have h1: "ex_carol \<in> set [ex_alice, ex_carol]" by simp
  have h2: "0 < length (candidate.views ex_carol)" by (simp add: ex_defs)
  have h3: "0 < length (person.views ex_voter)" by (simp add: ex_defs)
  have h4: "issue.name (view.issue (candidate.views ex_carol ! 0)) \<noteq>
            issue.name (view.issue (person.views ex_voter ! 0))" by (simp add: ex_defs)
  from vote_issue_mismatch[OF h1 h2 h3 h4] show ?thesis .
qed

text \<open>
  C10: for every voter and candidate list, a vote leaves the list's length, every
  candidate's views and name, and every candidate other than the chosen one (position \<open>k\<close>)
  as they were; a successful vote adds 1 to the chosen counter and a failed one changes
  nothing at all. The voter is an argument that the procedure only reads.
\<close>

theorem vote_frame:
  "\<exists>k. (fst (vote fadd v cs) = Inr () \<longrightarrow> k < length cs \<and>
            votes (snd (vote fadd v cs) ! k) = votes (cs ! k) + 1) \<and>
        (fst (vote fadd v cs) \<noteq> Inr () \<longrightarrow> snd (vote fadd v cs) = cs) \<and>
        (\<forall>j < length cs. j \<noteq> k \<longrightarrow> snd (vote fadd v cs) ! j = cs ! j) \<and>
        length (snd (vote fadd v cs)) = length cs \<and>
        map candidate.views (snd (vote fadd v cs)) = map candidate.views cs \<and>
        map candidate.name (snd (vote fadd v cs)) = map candidate.name cs"
proof -
  consider (err) e where "vote fadd v cs = (Inl e, cs)"
    | (ok) k where "k < length cs" "vote fadd v cs = (Inr (), cs[k := receive_vote (cs ! k)])"
    using vote_cases[where v = v and cs = cs and fadd = fadd] by blast
  then show ?thesis
  proof cases
    case err
    then show ?thesis by simp
  next
    case ok
    have "map candidate.views (cs[k := receive_vote (cs ! k)]) = map candidate.views cs"
      using ok(1) by (simp add: map_update receive_vote_def list_update_same_conv)
    moreover have "map candidate.name (cs[k := receive_vote (cs ! k)]) = map candidate.name cs"
      using ok(1) by (simp add: map_update receive_vote_def list_update_same_conv)
    ultimately show ?thesis using ok by (intro exI[of _ k]) (simp add: receive_vote_def)
  qed
qed

text \<open>On the example at most one of the two candidates is touched.\<close>

theorem vote_frame_witness:
  "map candidate.views (snd (vote ex_fadd ex_voter [ex_alice, ex_bob])) = [candidate.views ex_alice, candidate.views ex_bob] \<and>
   map candidate.name (snd (vote ex_fadd ex_voter [ex_alice, ex_bob])) = [''Alice'', ''Bob''] \<and>
   (snd (vote ex_fadd ex_voter [ex_alice, ex_bob]) ! 0 = ex_alice \<or>
    snd (vote ex_fadd ex_voter [ex_alice, ex_bob]) ! 1 = ex_bob)"
proof -
  from vote_frame[of ex_fadd ex_voter "[ex_alice, ex_bob]"] obtain k where
    fr: "\<forall>j < length [ex_alice, ex_bob]. j \<noteq> k \<longrightarrow>
           snd (vote ex_fadd ex_voter [ex_alice, ex_bob]) ! j = [ex_alice, ex_bob] ! j"
    and vs: "map candidate.views (snd (vote ex_fadd ex_voter [ex_alice, ex_bob])) =
             map candidate.views [ex_alice, ex_bob]"
    and ns: "map candidate.name (snd (vote ex_fadd ex_voter [ex_alice, ex_bob])) =
             map candidate.name [ex_alice, ex_bob]"
    by blast
  have "snd (vote ex_fadd ex_voter [ex_alice, ex_bob]) ! 0 = ex_alice \<or>
        snd (vote ex_fadd ex_voter [ex_alice, ex_bob]) ! 1 = ex_bob"
  proof (cases "k = 0")
    case True
    with fr have "snd (vote ex_fadd ex_voter [ex_alice, ex_bob]) ! 1 = [ex_alice, ex_bob] ! 1" by simp
    then show ?thesis by simp
  next
    case False
    with fr have "snd (vote ex_fadd ex_voter [ex_alice, ex_bob]) ! 0 = [ex_alice, ex_bob] ! 0" by simp
    then show ?thesis by simp
  qed
  moreover have "map candidate.name [ex_alice, ex_bob] = [''Alice'', ''Bob'']"
    by (simp add: ex_defs)
  ultimately show ?thesis using vs ns by simp
qed

section \<open>Sampling\<close>

lemmas ex_defs2 = ex_np_def ex_pop_views_def

lemma decide_views_issues:
  "decide_views np pvs vs s = Inr (vs', s') \<Longrightarrow>
   map view.issue vs' = map view.issue vs @ map population_view.issue pvs"
proof (induction pvs arbitrary: vs s)
  case Nil then show ?case by simp
next
  case (Cons i rest)
  from Cons.prems(1) obtain ch g s2 where
    rec: "decide_views np rest (vs @ [View (population_view.issue i) (Some ch) (max 0 g)]) s2 = Inr (vs', s')"
    by (auto simp: Let_def split: sum.splits prod.splits)
  from Cons.IH[OF rec] show ?case by (simp add: View_def)
qed

lemma decide_views_clamped:
  assumes "decide_views np pvs vs s = Inr (vs', s')"
    and "set pvs \<subseteq> S"
    and "\<forall>w \<in> set vs. \<exists>pv \<in> S. \<exists>s1 g s2.
           random_normal np s1 (population_view.weight pv) (population_view.weight_variance pv) = Inr (g, s2) \<and>
           view.issue w = population_view.issue pv \<and> view.weight w = max 0 g"
  shows "\<forall>w \<in> set vs'. \<exists>pv \<in> S. \<exists>s1 g s2.
           random_normal np s1 (population_view.weight pv) (population_view.weight_variance pv) = Inr (g, s2) \<and>
           view.issue w = population_view.issue pv \<and> view.weight w = max 0 g"
  using assms
proof (induction pvs arbitrary: vs s)
  case Nil then show ?case by simp
next
  case (Cons i rest)
  from Cons.prems(1) obtain ch s1 g s2 where
    nd: "random_normal np s1 (population_view.weight i) (population_view.weight_variance i) = Inr (g, s2)"
    and rec: "decide_views np rest (vs @ [View (population_view.issue i) (Some ch) (max 0 g)]) s2 = Inr (vs', s')"
    by (auto simp: Let_def split: sum.splits prod.splits)
  have iS: "i \<in> S" and restS: "set rest \<subseteq> S" using Cons.prems(2) by simp_all
  have new: "\<exists>pv \<in> S. \<exists>s1 g' s2.
           random_normal np s1 (population_view.weight pv) (population_view.weight_variance pv) = Inr (g', s2) \<and>
           view.issue (View (population_view.issue i) (Some ch) (max 0 g)) = population_view.issue pv \<and>
           view.weight (View (population_view.issue i) (Some ch) (max 0 g)) = max 0 g'"
    using iS nd by (intro bexI[of _ i] exI[of _ s1] exI[of _ g] exI[of _ s2]) (simp_all add: View_def)
  have "\<forall>w \<in> set (vs @ [View (population_view.issue i) (Some ch) (max 0 g)]). \<exists>pv \<in> S. \<exists>s1 g s2.
           random_normal np s1 (population_view.weight pv) (population_view.weight_variance pv) = Inr (g, s2) \<and>
           view.issue w = population_view.issue pv \<and> view.weight w = max 0 g"
    using Cons.prems(3) new by auto
  from Cons.IH[OF rec restS this] show ?case .
qed

text \<open>
  C7: whatever the random source returns, every view of a constructed \<^verbatim>\<open>Person\<close>
  carries a weight that is at least 0, and that weight is \<open>max 0 g\<close> for a draw \<open>g\<close>
  that \<open>random_normal\<close> returned for the mean and standard deviation of the population
  view of the same issue.
\<close>

theorem person_weights_clamped:
  assumes "Person np pvs s = Inr (p, s')"
  shows "\<forall>w \<in> set (person.views p).
           0 \<le> view.weight w \<and>
           (\<exists>pv \<in> set pvs. \<exists>s1 g s2.
              random_normal np s1 (population_view.weight pv) (population_view.weight_variance pv) = Inr (g, s2) \<and>
              view.issue w = population_view.issue pv \<and> view.weight w = max 0 g)"
proof -
  from assms obtain vs where dv: "decide_views np pvs [] s = Inr (vs, s')"
    and p: "p = \<lparr>person.views = sort_key (\<lambda>x. issue.name (view.issue x)) vs\<rparr>"
    by (auto simp: Person_def split: sum.splits prod.splits)
  have "\<forall>w \<in> set vs. \<exists>pv \<in> set pvs. \<exists>s1 g s2.
           random_normal np s1 (population_view.weight pv) (population_view.weight_variance pv) = Inr (g, s2) \<and>
           view.issue w = population_view.issue pv \<and> view.weight w = max 0 g"
    by (rule decide_views_clamped[OF dv]) simp_all
  moreover have "set (person.views p) = set vs" by (simp add: p)
  ultimately show ?thesis by fastforce
qed

text \<open>
  In the example the draw for the second issue is \<open>-1\<close> and the stored weight is 0.
\<close>

theorem person_weights_clamped_witness:
  "Person ex_np ex_pop_views 0 =
     Inr (\<lparr>person.views = [View ex_issue_a (Some ''no'') 2, View ex_issue_b (Some ''no'') 0]\<rparr>, 4) \<and>
   random_normal ex_np 3 1 1 = Inr (- 1, 4) \<and>
   list_all (\<lambda>w. 0 \<le> view.weight w)
     [View ex_issue_a (Some ''no'') 2, View ex_issue_b (Some ''no'') 0]"
proof -
  have h: "Person ex_np ex_pop_views 0 =
     Inr (\<lparr>person.views = [View ex_issue_a (Some ''no'') 2, View ex_issue_b (Some ''no'') 0]\<rparr>, 4)"
    by (simp add: Person_def ex_defs2 ex_defs Let_def)
  have d: "random_normal ex_np 3 1 1 = Inr (- 1, 4)" by (simp add: ex_np_def)
  from person_weights_clamped[OF h]
  have "\<forall>w \<in> set [View ex_issue_a (Some ''no'') 2, View ex_issue_b (Some ''no'') 0].
          0 \<le> view.weight w" by simp
  with h d show ?thesis by (simp add: list_all_iff)
qed

section \<open>Conservation of votes\<close>

lemma sum_list_votes_update:
  "k < length cs \<Longrightarrow>
   sum_list (map votes (cs[k := receive_vote (cs ! k)])) = sum_list (map votes cs) + 1"
proof (induction cs arbitrary: k)
  case Nil then show ?case by simp
next
  case (Cons c cs)
  then show ?case by (cases k) (auto simp: receive_vote_def)
qed

lemma vote_ok_total:
  assumes "vote fadd v cs = (Inr u, cs')"
  shows "sum_list (map votes cs') = sum_list (map votes cs) + 1 \<and>
         map candidate.views cs' = map candidate.views cs \<and> length cs' = length cs"
proof -
  from vote_cases[where v = v and cs = cs and fadd = fadd] assms obtain k where k: "k < length cs"
    and cs': "cs' = cs[k := receive_vote (cs ! k)]" by auto
  have "map candidate.views cs' = map candidate.views cs"
    using k by (simp add: cs' map_update receive_vote_def list_update_same_conv)
  then show ?thesis using sum_list_votes_update[OF k] cs' by simp
qed

lemma people_vote_total:
  "people_vote fadd ps cs ap = Inr (cs', ap') \<Longrightarrow>
   sum_list (map votes cs') = sum_list (map votes cs) + int (length ps) \<and> ap' = ap @ ps \<and>
   map candidate.views cs' = map candidate.views cs"
proof (induction ps arbitrary: cs ap)
  case Nil then show ?case by simp
next
  case (Cons p ps)
  from Cons.prems obtain u cs1 where v: "vote fadd p cs = (Inr u, cs1)"
    and rec: "people_vote fadd ps cs1 (ap @ [p]) = Inr (cs', ap')"
    by (auto split: prod.splits sum.splits)
  from vote_ok_total[OF v] Cons.IH[OF rec] show ?case by simp
qed

lemma populations_vote_total:
  "populations_vote fadd pops cs ap = Inr (cs', ap') \<Longrightarrow>
   sum_list (map votes cs') = sum_list (map votes cs) + int (length (concat (map people pops))) \<and>
   ap' = ap @ concat (map people pops) \<and>
   map candidate.views cs' = map candidate.views cs"
proof (induction pops arbitrary: cs ap)
  case Nil then show ?case by simp
next
  case (Cons pop pops)
  from Cons.prems obtain cs1 ap1 where pv: "people_vote fadd (people pop) cs ap = Inr (cs1, ap1)"
    and rec: "populations_vote fadd pops cs1 ap1 = Inr (cs', ap')"
    by (auto split: prod.splits sum.splits)
  from people_vote_total[OF pv] Cons.IH[OF rec] show ?case by simp
qed

lemma generate_candidates_no_votes:
  "sum_list (map votes (generate_candidates css iss)) = 0"
  by (induction css) (simp_all add: generate_candidates_def Candidate_def Let_def)

lemma rank_candidates_total:
  "rank_candidates cs = Inr (sorted_cs, w, l) \<Longrightarrow>
   sum_list (map votes sorted_cs) = sum_list (map votes cs)"
proof -
  assume "rank_candidates cs = Inr (sorted_cs, w, l)"
  then have "sorted_cs = sorted_reverse votes cs"
    by (auto simp: rank_candidates_def Let_def split: list.splits)
  then have "mset (map votes sorted_cs) = mset (map votes cs)"
    by (simp add: mset_sorted_reverse)
  then show ?thesis by (metis sum_mset_sum_list)
qed

lemma generate_people_length:
  "generate_people np pvs n ps s = Inr (ps', s') \<Longrightarrow> length ps' = length ps + n"
proof (induction n arbitrary: ps s)
  case 0 then show ?case by simp
next
  case (Suc n)
  from Suc.prems obtain p s1 where "generate_people np pvs n (ps @ [p]) s1 = Inr (ps', s')"
    by (auto split: sum.splits prod.splits)
  from Suc.IH[OF this] show ?case by simp
qed

lemma Population_people:
  "Population np n sz pvs s = Inr (pop, s') \<Longrightarrow> int (length (people pop)) = max 0 sz"
proof -
  assume "Population np n sz pvs s = Inr (pop, s')"
  then obtain ps where g: "generate_people np pvs (nat sz) [] s = Inr (ps, s')"
    and "people pop = ps"
    by (auto simp: Population_def split: sum.splits prod.splits)
  with generate_people_length[OF g] show ?thesis by simp
qed

lemma generate_populations_people:
  "generate_populations np pss iss s = Inr (pops, s') \<Longrightarrow>
   int (length (concat (map people pops))) = (\<Sum>p \<leftarrow> pss. max 0 (population_setting.size p))"
proof (induction pss arbitrary: pops s)
  case Nil then show ?case by simp
next
  case (Cons ps pss)
  from Cons.prems obtain pvs pop s1 rest where
    pop: "Population np (population_setting.name ps) (population_setting.size ps) pvs s = Inr (pop, s1)"
    and rec: "generate_populations np pss iss s1 = Inr (rest, s')"
    and pops: "pops = pop # rest"
    by (auto simp: Let_def split: sum.splits prod.splits)
  from Population_people[OF pop] Cons.IH[OF rec] show ?case by (simp add: pops)
qed

lemma run_election_conserves:
  assumes "run_election fadd np st s = Inr r"
  shows "sum_list (map votes (ranking r)) = int (length (all_voters r)) \<and>
         int (length (all_voters r)) = (\<Sum>p \<leftarrow> populations st. max 0 (population_setting.size p))"
proof -
  let ?iss = "generate_issues (issues st)"
  let ?cs = "generate_candidates (candidates st) ?iss"
  from assms obtain pops s' cs' ap sorted_cs w l where
    gp: "generate_populations np (populations st) ?iss s = Inr (pops, s')"
    and pv: "populations_vote fadd pops ?cs [] = Inr (cs', ap)"
    and rk: "rank_candidates cs' = Inr (sorted_cs, w, l)"
    and r: "r = \<lparr>ranking = sorted_cs, winner = w, loser = l, all_voters = ap\<rparr>"
    by (auto simp: run_election_def Let_def split: sum.splits prod.splits)
  from populations_vote_total[OF pv] generate_candidates_no_votes[of "candidates st" ?iss]
  have "sum_list (map votes cs') = int (length ap)" and "ap = concat (map people pops)" by simp_all
  with rank_candidates_total[OF rk] generate_populations_people[OF gp] show ?thesis
    by (simp add: r)
qed

section \<open>A run never meets misaligned views\<close>

lemma sorted_generate_issues: "sorted (map issue.name (generate_issues iset))"
  by (simp add: generate_issues_def)

lemma map_snd_zip_prefix: "map snd (zip xs ys) = take (length xs) ys"
proof (induction xs arbitrary: ys)
  case Nil then show ?case by simp
next
  case (Cons x xs) then show ?case by (cases ys) simp_all
qed

lemma generate_candidates_prefix:
  assumes srt: "sorted (map issue.name iss)" and c: "c \<in> set (generate_candidates css iss)"
  shows "\<exists>n. map view.issue (candidate.views c) = take n iss"
proof -
  from c have "\<exists>cst :: candidate_setting. c = Candidate (candidate_setting.name cst)
      (map (\<lambda>(cview, i). View i (Some (view_setting.stance cview)) 1)
         (zip (sort_key view_setting.issue (candidate_setting.views cst)) iss))"
    by (auto simp: generate_candidates_def Let_def)
  then obtain cst :: candidate_setting where cdef: "c = Candidate (candidate_setting.name cst)
      (map (\<lambda>(cview, i). View i (Some (view_setting.stance cview)) 1)
         (zip (sort_key view_setting.issue (candidate_setting.views cst)) iss))" ..
  let ?cv = "sort_key view_setting.issue (candidate_setting.views cst)"
  let ?vs = "map (\<lambda>(cview, i). View i (Some (view_setting.stance cview)) 1) (zip ?cv iss)"
  have iss: "map view.issue ?vs = take (length ?cv) iss"
  proof -
    have "map view.issue ?vs = map snd (zip ?cv iss)"
      by (simp add: View_def case_prod_unfold)
    also have "\<dots> = take (length ?cv) iss" by (rule map_snd_zip_prefix)
    finally show ?thesis .
  qed
  have "map (\<lambda>x. issue.name (view.issue x)) ?vs = map issue.name (map view.issue ?vs)"
    by simp
  also have "\<dots> = take (length ?cv) (map issue.name iss)" by (simp only: iss take_map)
  finally have "sorted (map (\<lambda>x. issue.name (view.issue x)) ?vs)"
    using srt by (simp add: sorted_wrt_take)
  then have "sort_key (\<lambda>x. issue.name (view.issue x)) ?vs = ?vs"
    by (rule sort_key_id_if_sorted)
  then have "candidate.views c = ?vs" by (simp add: cdef Candidate_def)
  with iss show ?thesis by metis
qed

lemma Person_prefix:
  assumes srt: "sorted (map issue.name iss)"
    and pvs: "map population_view.issue pvs = take m iss"
    and p: "Person np pvs s = Inr (p, s')"
  shows "map view.issue (person.views p) = take m iss"
proof -
  from p obtain vs where dv: "decide_views np pvs [] s = Inr (vs, s')"
    and pd: "p = \<lparr>person.views = sort_key (\<lambda>x. issue.name (view.issue x)) vs\<rparr>"
    by (auto simp: Person_def split: sum.splits prod.splits)
  from decide_views_issues[OF dv] pvs have iss: "map view.issue vs = take m iss" by simp
  have "map (\<lambda>x. issue.name (view.issue x)) vs = map issue.name (map view.issue vs)"
    by simp
  also have "\<dots> = take m (map issue.name iss)" by (simp only: iss take_map)
  finally have "sorted (map (\<lambda>x. issue.name (view.issue x)) vs)"
    using srt by (simp add: sorted_wrt_take)
  then have "sort_key (\<lambda>x. issue.name (view.issue x)) vs = vs"
    by (rule sort_key_id_if_sorted)
  with iss show ?thesis by (simp add: pd)
qed

lemma generate_people_prefix:
  assumes srt: "sorted (map issue.name iss)"
    and pvs: "map population_view.issue pvs = take m iss"
  shows "generate_people np pvs n ps s = Inr (ps', s') \<Longrightarrow>
         \<forall>p \<in> set ps. map view.issue (person.views p) = take m iss \<Longrightarrow>
         \<forall>p \<in> set ps'. map view.issue (person.views p) = take m iss"
proof (induction n arbitrary: ps s)
  case 0 then show ?case by simp
next
  case (Suc n)
  from Suc.prems(1) obtain p s1 where p: "Person np pvs s = Inr (p, s1)"
    and rec: "generate_people np pvs n (ps @ [p]) s1 = Inr (ps', s')"
    by (auto split: sum.splits prod.splits)
  from Person_prefix[OF srt pvs p] Suc.prems(2)
  have "\<forall>q \<in> set (ps @ [p]). map view.issue (person.views q) = take m iss" by simp
  from Suc.IH[OF rec this] show ?case .
qed

lemma generate_populations_prefix:
  assumes srt: "sorted (map issue.name iss)"
  shows "generate_populations np pss iss s = Inr (pops, s') \<Longrightarrow>
         \<forall>p \<in> set (concat (map people pops)). \<exists>m. map view.issue (person.views p) = take m iss"
proof (induction pss arbitrary: pops s)
  case Nil then show ?case by simp
next
  case (Cons ps pss)
  let ?ivs = "sort_key issue_view_setting.name (issue_views ps)"
  let ?pvs = "map (\<lambda>(v, i).
             \<lparr>population_view.issue = i, proportions = issue_view_setting.stances v,
              weight = issue_view_setting.weight v,
              weight_variance = issue_view_setting.weight_variance v\<rparr>) (zip ?ivs iss)"
  from Cons.prems obtain pop s1 rest where
    pop: "Population np (population_setting.name ps) (population_setting.size ps) ?pvs s = Inr (pop, s1)"
    and rec: "generate_populations np pss iss s1 = Inr (rest, s')"
    and pops: "pops = pop # rest"
    by (auto simp: Let_def split: sum.splits prod.splits)
  have "map population_view.issue ?pvs = map snd (zip ?ivs iss)"
    by (simp add: case_prod_unfold)
  then have pv: "map population_view.issue ?pvs = take (length ?ivs) iss"
    by (simp only: map_snd_zip_prefix)
  from pop obtain people1 where
    g: "generate_people np ?pvs (nat (population_setting.size ps)) [] s = Inr (people1, s1)"
    and pp: "people pop = people1"
    by (auto simp: Population_def split: sum.splits prod.splits)
  from generate_people_prefix[OF srt pv g]
  have "\<forall>p \<in> set (people pop). map view.issue (person.views p) = take (length ?ivs) iss"
    by (simp add: pp)
  with Cons.IH[OF rec] show ?case by (auto simp: pops)
qed

lemma prefixes_aligned:
  assumes c: "map view.issue (candidate.views c) = take n iss"
    and p: "map view.issue (person.views p) = take m iss"
  shows "views_aligned p c"
  unfolding views_aligned_nth
proof (intro allI impI)
  fix k assume k: "k < length (candidate.views c) \<and> k < length (person.views p)"
  have lc: "length (candidate.views c) = length (take n iss)" by (metis c length_map)
  have lp: "length (person.views p) = length (take m iss)" by (metis p length_map)
  have "view.issue (candidate.views c ! k) = map view.issue (candidate.views c) ! k"
    using k by simp
  also have "\<dots> = iss ! k" using k lc by (simp add: c)
  finally have 1: "view.issue (candidate.views c ! k) = iss ! k" .
  have "view.issue (person.views p ! k) = map view.issue (person.views p) ! k"
    using k by simp
  also have "\<dots> = iss ! k" using k lp by (simp add: p)
  finally have 2: "view.issue (person.views p ! k) = iss ! k" .
  show "issue.name (view.issue (candidate.views c ! k)) = issue.name (view.issue (person.views p ! k))"
    by (simp add: 1 2)
qed

lemma views_aligned_same_views:
  "candidate.views c = candidate.views c' \<Longrightarrow> views_aligned p c = views_aligned p c'"
  by (simp add: views_aligned_def)

lemma aligned_preserved:
  assumes "map candidate.views cs' = map candidate.views cs"
    and "\<forall>c \<in> set cs. views_aligned p c"
  shows "\<forall>c \<in> set cs'. views_aligned p c"
proof
  fix c' assume "c' \<in> set cs'"
  then have "candidate.views c' \<in> set (map candidate.views cs)" using assms(1) by (metis image_eqI list.set_map)
  then obtain c where "c \<in> set cs" "candidate.views c = candidate.views c'" by auto
  with assms(2) views_aligned_same_views show "views_aligned p c'" by blast
qed

lemma vote_succeeds:
  assumes ne: "cs \<noteq> []" and al: "\<forall>c \<in> set cs. views_aligned v c"
  shows "\<exists>cs'. vote fadd v cs = (Inr (), cs')"
proof -
  from all_agreements_aligned[OF al, where k = 0] obtain ags where "all_agreements fadd v cs 0 = Inr ags" ..
  from vote_chosen[OF this ne] show ?thesis by blast
qed

lemma people_vote_succeeds:
  "cs \<noteq> [] \<Longrightarrow> \<forall>p \<in> set ps. \<forall>c \<in> set cs. views_aligned p c \<Longrightarrow>
   \<exists>cs' ap'. people_vote fadd ps cs ap = Inr (cs', ap')"
proof (induction ps arbitrary: cs ap)
  case Nil then show ?case by simp
next
  case (Cons p ps)
  from Cons.prems have "\<forall>c \<in> set cs. views_aligned p c" by simp
  from vote_succeeds[OF Cons.prems(1) this] obtain cs1 where v: "vote fadd p cs = (Inr (), cs1)" ..
  from vote_ok_total[OF v] have vs: "map candidate.views cs1 = map candidate.views cs"
    and len: "length cs1 = length cs" by simp_all
  have ne1: "cs1 \<noteq> []" using len Cons.prems(1) by auto
  have "\<forall>q \<in> set ps. \<forall>c \<in> set cs1. views_aligned q c"
    using aligned_preserved[OF vs] Cons.prems(2) by simp
  from Cons.IH[OF ne1 this, of "ap @ [p]"] v show ?case by simp
qed

lemma populations_vote_succeeds:
  "cs \<noteq> [] \<Longrightarrow> \<forall>p \<in> set (concat (map people pops)). \<forall>c \<in> set cs. views_aligned p c \<Longrightarrow>
   \<exists>cs' ap'. populations_vote fadd pops cs ap = Inr (cs', ap')"
proof (induction pops arbitrary: cs ap)
  case Nil then show ?case by simp
next
  case (Cons pop pops)
  from Cons.prems(2) have "\<forall>p \<in> set (people pop). \<forall>c \<in> set cs. views_aligned p c" by simp
  from people_vote_succeeds[OF Cons.prems(1) this, where ap = ap and fadd = fadd] obtain cs1 ap1 where
    pv: "people_vote fadd (people pop) cs ap = Inr (cs1, ap1)" by blast
  from people_vote_total[OF pv] have vs: "map candidate.views cs1 = map candidate.views cs" by simp
  then have "length cs1 = length cs" by (metis length_map)
  then have ne1: "cs1 \<noteq> []" using Cons.prems(1) by auto
  have "\<forall>q \<in> set (concat (map people pops)). \<forall>c \<in> set cs1. views_aligned q c"
    using aligned_preserved[OF vs] Cons.prems(2) by simp
  from Cons.IH[OF ne1 this, of ap1] pv show ?case by simp
qed

lemma rank_candidates_succeeds:
  "cs \<noteq> [] \<Longrightarrow> \<exists>res. rank_candidates cs = Inr res"
  by (cases "sorted_reverse votes cs")
     (auto simp: rank_candidates_def Let_def sorted_reverse_Nil_iff)

lemma run_election_completes:
  assumes ne: "candidates st \<noteq> []"
    and gp: "generate_populations np (populations st) (generate_issues (issues st)) s = Inr (pops, s')"
  shows "\<exists>r. run_election fadd np st s = Inr r"
proof -
  let ?iss = "generate_issues (issues st)"
  let ?cs = "generate_candidates (candidates st) ?iss"
  have srt: "sorted (map issue.name ?iss)" by (rule sorted_generate_issues)
  have cne: "?cs \<noteq> []" using ne by (simp add: generate_candidates_def)
  have al: "\<forall>p \<in> set (concat (map people pops)). \<forall>c \<in> set ?cs. views_aligned p c"
  proof (intro ballI)
    fix p c assume p: "p \<in> set (concat (map people pops))" and c: "c \<in> set ?cs"
    from generate_populations_prefix[OF srt gp] p obtain m where
      "map view.issue (person.views p) = take m ?iss" by blast
    moreover from generate_candidates_prefix[OF srt c] obtain n where
      "map view.issue (candidate.views c) = take n ?iss" ..
    ultimately show "views_aligned p c" by (intro prefixes_aligned)
  qed
  from populations_vote_succeeds[OF cne al, where ap = "[]" and fadd = fadd] obtain cs' ap where
    pv: "populations_vote fadd pops ?cs [] = Inr (cs', ap)" by blast
  from populations_vote_total[OF pv] have "length cs' = length ?cs" by (metis length_map)
  then have "cs' \<noteq> []" using cne by auto
  from rank_candidates_succeeds[OF this] obtain res where rk: "rank_candidates cs' = Inr res" ..
  obtain a b c where "res = (a, b, c)" by (cases res)
  with gp pv rk show ?thesis by (simp add: run_election_def Let_def)
qed

section \<open>The example election, evaluated\<close>

lemmas ex_defs3 = ex_issue_settings_def ex_population_settings_def ex_settings_def ex_settings_omit_def

lemma ex_issues: "generate_issues ex_issue_settings = [ex_issue_a, ex_issue_b]"
  by (simp add: generate_issues_def ex_defs3 ex_defs)

lemma ex_candidates: "generate_candidates (candidates ex_settings) [ex_issue_a, ex_issue_b] = [ex_alice, ex_bob]"
  by (simp add: generate_candidates_def ex_defs3 ex_defs)

lemma ex_person1: "Person ex_np ex_pop_views 0 = Inr (ex_voter1, 4)"
  by (simp add: Person_def ex_defs2 ex_defs Let_def ex_voter1_def)

lemma ex_person2: "Person ex_np ex_pop_views 4 = Inr (ex_voter2, 8)"
  by (simp add: Person_def ex_defs2 ex_defs Let_def ex_voter2_def)

lemma ex_people:
  "generate_people ex_np ex_pop_views (Suc (Suc 0)) [] 0 = Inr ([ex_voter1, ex_voter2], 8)"
  by (simp add: ex_person1 ex_person2)

lemma ex_town_built: "Population ex_np ''town'' 2 ex_pop_views 0 = Inr (ex_town, 8)"
proof -
  have "nat 2 = Suc (Suc 0)" by simp
  then show ?thesis unfolding Population_def by (simp only: ex_people) (simp add: ex_town_def)
qed

lemma ex_town_views:
  "map (\<lambda>(v, i).
       \<lparr>population_view.issue = i, proportions = issue_view_setting.stances v,
        weight = issue_view_setting.weight v,
        weight_variance = issue_view_setting.weight_variance v\<rparr>)
     (zip (sort_key issue_view_setting.name (issue_views (hd ex_population_settings)))
          [ex_issue_a, ex_issue_b]) = ex_pop_views"
  by (simp add: ex_population_settings_def ex_pop_views_def)

lemma ex_pops:
  "generate_populations ex_np ex_population_settings [ex_issue_a, ex_issue_b] 0 = Inr ([ex_town], 8)"
proof -
  obtain ps where ps: "ex_population_settings = [ps]" "hd ex_population_settings = ps"
    "population_setting.name ps = ''town''" "population_setting.size ps = 2"
    by (simp add: ex_population_settings_def)
  show ?thesis
    using ex_town_views by (simp add: ps Let_def ex_town_built)
qed

section \<open>The whole run\<close>

text \<open>
  C3: if \<^verbatim>\<open>run_election\<close> completes, there was at least one candidate, and the vote
  counters of the ranked candidates add up to the number of voters, which is the sum of
  the population sizes (a negative size counts as 0). Moreover the run does complete
  whenever there is at least one candidate and the sampling of the populations raises
  nothing: the exception of \<^verbatim>\<open>Person.vote\<close> cannot occur in a run.
\<close>

theorem votes_conserved:
  "(run_election fadd np st s = Inr r \<longrightarrow>
      candidates st \<noteq> [] \<and>
      sum_list (map votes (ranking r)) = int (length (all_voters r)) \<and>
      int (length (all_voters r)) = (\<Sum>p \<leftarrow> populations st. max 0 (population_setting.size p))) \<and>
   (candidates st \<noteq> [] \<and>
    generate_populations np (populations st) (generate_issues (issues st)) s = Inr (pops, s') \<longrightarrow>
      (\<exists>r'. run_election fadd np st s = Inr r' \<and> all_voters r' = concat (map people pops)))"
proof (intro conjI impI)
  assume run: "run_election fadd np st s = Inr r"
  show "candidates st \<noteq> []"
  proof
    assume e: "candidates st = []"
    let ?iss = "generate_issues (issues st)"
    from run obtain pops1 s1 cs' ap where
      pv: "populations_vote fadd pops1 (generate_candidates (candidates st) ?iss) [] = Inr (cs', ap)"
      and rk: "\<exists>res. rank_candidates cs' = Inr res"
      by (auto simp: run_election_def Let_def split: sum.splits prod.splits)
    from populations_vote_total[OF pv] have "length cs' = length (generate_candidates (candidates st) ?iss)"
      by (metis length_map)
    then have "cs' = []" by (simp add: e generate_candidates_def)
    with rk show False by (simp add: rank_candidates_def sorted_reverse_def)
  qed
  from run_election_conserves[OF run]
  show "sum_list (map votes (ranking r)) = int (length (all_voters r))"
    and "int (length (all_voters r)) = (\<Sum>p \<leftarrow> populations st. max 0 (population_setting.size p))"
    by simp_all
next
  assume a: "candidates st \<noteq> [] \<and>
    generate_populations np (populations st) (generate_issues (issues st)) s = Inr (pops, s')"
  then have ne: "candidates st \<noteq> []"
    and gp: "generate_populations np (populations st) (generate_issues (issues st)) s = Inr (pops, s')"
    by simp_all
  from run_election_completes[OF ne gp] obtain r' where r': "run_election fadd np st s = Inr r'" ..
  then obtain cs' ap where
    pv: "populations_vote fadd pops (generate_candidates (candidates st) (generate_issues (issues st))) [] = Inr (cs', ap)"
    and ap: "all_voters r' = ap"
    using gp by (auto simp: run_election_def Let_def split: sum.splits prod.splits)
  from populations_vote_total[OF pv] ap have "all_voters r' = concat (map people pops)" by simp
  with r' show "\<exists>r'. run_election fadd np st s = Inr r' \<and> all_voters r' = concat (map people pops)"
    by blast
qed

lemma ex_settings_pops:
  "generate_populations ex_np (populations ex_settings) (generate_issues (issues ex_settings)) 0
     = Inr ([ex_town], 8)"
  by (simp add: ex_settings_def ex_issues ex_pops)

text \<open>The example election has two voters, and two votes are counted.\<close>

theorem votes_conserved_witness:
  "\<not> isl (run_election ex_fadd ex_np ex_settings 0) \<and>
   sum_list (map votes (ranking (projr (run_election ex_fadd ex_np ex_settings 0)))) = 2 \<and>
   all_voters (projr (run_election ex_fadd ex_np ex_settings 0)) = [ex_voter1, ex_voter2]"
proof -
  have ne: "candidates ex_settings \<noteq> []" by (simp add: ex_settings_def)
  have gp: "generate_populations ex_np (populations ex_settings)
      (generate_issues (issues ex_settings)) 0 = Inr ([ex_town], 8)"
    by (simp add: ex_settings_def ex_issues ex_pops)
  from votes_conserved[of ex_fadd ex_np ex_settings 0 _ "[ex_town]" 8] ne gp
  obtain r' where r': "run_election ex_fadd ex_np ex_settings 0 = Inr r'"
    and av: "all_voters r' = concat (map people [ex_town])" by blast
  from votes_conserved[of ex_fadd ex_np ex_settings 0 r' "[ex_town]" 8] r'
  have "sum_list (map votes (ranking r')) = int (length (all_voters r'))" by blast
  moreover have "concat (map people [ex_town]) = [ex_voter1, ex_voter2]"
    by (simp add: ex_town_def)
  ultimately show ?thesis using r' av by simp
qed

section \<open>Building candidates\<close>








section \<open>Winner and loser\<close>

text \<open>
  C6, as the code has it: the ranking is a stable sort by descending vote count (a
  permutation of the candidates in which candidates with equal counts keep their input
  order). The winner has the maximal count and is the earliest such candidate in the
  input; the loser has the minimal count and is the latest such candidate in the input.
\<close>

theorem rank_candidates_ties:
  assumes ne: "cs \<noteq> []"
  shows "\<exists>i < length cs. \<exists>k < length cs.
           rank_candidates cs = Inr (sorted_reverse votes cs, cs ! i, cs ! k) \<and>
           mset (sorted_reverse votes cs) = mset cs \<and>
           sorted (rev (map votes (sorted_reverse votes cs))) \<and>
           (\<forall>n. filter (\<lambda>c. votes c = n) (sorted_reverse votes cs) = filter (\<lambda>c. votes c = n) cs) \<and>
           (\<forall>j < length cs. votes (cs ! j) \<le> votes (cs ! i)) \<and>
           (\<forall>j < i. votes (cs ! j) < votes (cs ! i)) \<and>
           (\<forall>j < length cs. votes (cs ! k) \<le> votes (cs ! j)) \<and>
           (\<forall>j < length cs. k < j \<longrightarrow> votes (cs ! k) < votes (cs ! j))"
proof -
  let ?S = "sorted_reverse votes cs"
  let ?M = "Max (votes ` set cs)" and ?m = "Min (votes ` set cs)"
  have "?M \<in> votes ` set cs" using ne by (intro Max_in) auto
  then have "\<exists>x \<in> set cs. votes x = ?M" by auto
  from hd_filter_first[OF this] obtain i where i: "i < length cs"
    "hd (filter (\<lambda>x. votes x = ?M) cs) = cs ! i" "votes (cs ! i) = ?M"
    "\<forall>j < i. votes (cs ! j) \<noteq> ?M" by blast
  have "?m \<in> votes ` set cs" using ne by (intro Min_in) auto
  then have "\<exists>x \<in> set cs. votes x = ?m" by auto
  from last_filter_last[OF this] obtain k where k: "k < length cs"
    "last (filter (\<lambda>x. votes x = ?m) cs) = cs ! k" "votes (cs ! k) = ?m"
    "\<forall>j < length cs. k < j \<longrightarrow> votes (cs ! j) \<noteq> ?m" by blast
  have le: "\<forall>j < length cs. votes (cs ! j) \<le> ?M" by simp
  have ge: "\<forall>j < length cs. ?m \<le> votes (cs ! j)" by simp
  have hd: "hd ?S = cs ! i" using hd_sorted_reverse[OF ne, of votes] i(2) by simp
  have la: "last ?S = cs ! k" using last_sorted_reverse[OF ne, of votes] k(2) by simp
  have "?S \<noteq> []" using ne by (simp add: sorted_reverse_Nil_iff)
  then obtain rest where S: "?S = cs ! i # rest" using hd by (cases ?S) auto
  have 1: "rank_candidates cs = Inr (?S, cs ! i, cs ! k)"
    unfolding rank_candidates_def Let_def using S la by simp
  have 2: "mset ?S = mset cs" by (rule mset_sorted_reverse)
  have 3: "sorted (rev (map votes ?S))" by (rule sorted_reverse_descending)
  have 4: "\<forall>n. filter (\<lambda>c. votes c = n) ?S = filter (\<lambda>c. votes c = n) cs"
    by (simp add: sorted_reverse_stable)
  have 5: "\<forall>j < length cs. votes (cs ! j) \<le> votes (cs ! i)" using le i(3) by simp
  have 6: "\<forall>j < i. votes (cs ! j) < votes (cs ! i)"
  proof (intro allI impI)
    fix j assume "j < i"
    then have "votes (cs ! j) \<le> ?M" "votes (cs ! j) \<noteq> ?M" using le i(1) i(4) by auto
    then show "votes (cs ! j) < votes (cs ! i)" using i(3) by simp
  qed
  have 7: "\<forall>j < length cs. votes (cs ! k) \<le> votes (cs ! j)" using ge k(3) by simp
  have 8: "\<forall>j < length cs. k < j \<longrightarrow> votes (cs ! k) < votes (cs ! j)"
  proof (intro allI impI)
    fix j assume "j < length cs" "k < j"
    then have "?m \<le> votes (cs ! j)" "votes (cs ! j) \<noteq> ?m" using ge k(4) by auto
    then show "votes (cs ! k) < votes (cs ! j)" using k(3) by simp
  qed
  from i(1) k(1) 1 2 3 4 5 6 7 8 show ?thesis by blast
qed

lemma ex_votes: "votes ex_alice = 0" "votes ex_bob = 0" "votes ex_carol = 0"
  by (simp_all add: ex_defs)

text \<open>Bob and Carol tie at the bottom; Carol, who comes later, is the loser.\<close>

theorem rank_candidates_ties_witness:
  "rank_candidates [ex_bob, ex_alice\<lparr>votes := 1\<rparr>, ex_carol] =
     Inr ([ex_alice\<lparr>votes := 1\<rparr>, ex_bob, ex_carol], ex_alice\<lparr>votes := 1\<rparr>, ex_carol)"
proof -
  let ?cs = "[ex_bob, ex_alice\<lparr>votes := 1\<rparr>, ex_carol]"
  have ne: "?cs \<noteq> []" by simp
  have srt: "sorted_reverse votes ?cs = [ex_alice\<lparr>votes := 1\<rparr>, ex_bob, ex_carol]"
    by (simp add: sorted_reverse_def ex_votes)
  from rank_candidates_ties[OF ne] obtain i k where i: "i < length ?cs" and k: "k < length ?cs"
    and r: "rank_candidates ?cs = Inr (sorted_reverse votes ?cs, ?cs ! i, ?cs ! k)"
    and mx: "\<forall>j < length ?cs. votes (?cs ! j) \<le> votes (?cs ! i)"
    and mn: "\<forall>j < length ?cs. k < j \<longrightarrow> votes (?cs ! k) < votes (?cs ! j)"
    by blast
  have "i = 1"
  proof -
    have "(1::nat) < length ?cs" by simp
    from mx[rule_format, OF this] have "1 \<le> votes (?cs ! i)" by simp
    with i show ?thesis by (cases i; cases "i - 1") (auto simp: ex_votes less_Suc_eq)
  qed
  moreover have "k = 2"
  proof (rule ccontr)
    assume "k \<noteq> 2"
    with k have k2: "k < 2" by simp
    have "(2::nat) < length ?cs" by simp
    from mn[rule_format, OF this k2] have "votes (?cs ! k) < 0" by (simp add: ex_votes)
    with k show False by (cases k; cases "k - 1") (auto simp: ex_votes less_Suc_eq)
  qed
  ultimately show ?thesis using r srt by simp
qed

lemma ex_vote1: "vote ex_fadd ex_voter1 [ex_alice, ex_bob] = (Inr (), [ex_alice, ex_bob\<lparr>votes := 1\<rparr>])"
  by (simp add: vote_def sorted_reverse_def agreement_score_def receive_vote_def ex_fadd_def
      ex_voter1_def ex_defs)

lemma ex_vote2:
  "vote ex_fadd ex_voter2 [ex_alice, ex_bob\<lparr>votes := 1\<rparr>] =
     (Inr (), [ex_alice\<lparr>votes := 1\<rparr>, ex_bob\<lparr>votes := 1\<rparr>])"
  by (simp add: vote_def sorted_reverse_def agreement_score_def receive_vote_def ex_fadd_def
      ex_voter2_def ex_defs)

lemma ex_voting:
  "populations_vote ex_fadd [ex_town] [ex_alice, ex_bob] [] =
     Inr ([ex_alice\<lparr>votes := 1\<rparr>, ex_bob\<lparr>votes := 1\<rparr>], [ex_voter1, ex_voter2])"
  by (simp add: ex_town_def ex_vote1 ex_vote2)

lemma ex_ranking:
  "rank_candidates [ex_alice\<lparr>votes := 1\<rparr>, ex_bob\<lparr>votes := 1\<rparr>] =
     Inr ([ex_alice\<lparr>votes := 1\<rparr>, ex_bob\<lparr>votes := 1\<rparr>], ex_alice\<lparr>votes := 1\<rparr>, ex_bob\<lparr>votes := 1\<rparr>)"
  by (simp add: rank_candidates_def sorted_reverse_def)

lemma ex_settings_candidates:
  "generate_candidates (candidates ex_settings) (generate_issues (issues ex_settings)) = [ex_alice, ex_bob]"
  using ex_candidates by (simp add: ex_settings_def ex_issues)

text \<open>
  C6 as stated fails for the loser: in the example election Alice and Bob receive one
  vote each, and the loser is Bob, the later of the two in the input.
\<close>

theorem loser_tie_counterexample:
  "run_election ex_fadd ex_np ex_settings 0 =
     Inr \<lparr>ranking = [ex_alice\<lparr>votes := 1\<rparr>, ex_bob\<lparr>votes := 1\<rparr>],
          winner = ex_alice\<lparr>votes := 1\<rparr>, loser = ex_bob\<lparr>votes := 1\<rparr>,
          all_voters = [ex_voter1, ex_voter2]\<rparr> \<and>
   candidate.name ex_alice = ''Alice'' \<and> candidate.name ex_bob = ''Bob'' \<and>
   ex_bob\<lparr>votes := 1\<rparr> \<noteq> ex_alice\<lparr>votes := 1\<rparr>"
proof -
  have "run_election ex_fadd ex_np ex_settings 0 =
     Inr \<lparr>ranking = [ex_alice\<lparr>votes := 1\<rparr>, ex_bob\<lparr>votes := 1\<rparr>],
          winner = ex_alice\<lparr>votes := 1\<rparr>, loser = ex_bob\<lparr>votes := 1\<rparr>,
          all_voters = [ex_voter1, ex_voter2]\<rparr>"
    unfolding run_election_def Let_def
    by (simp only: ex_settings_candidates ex_settings_pops ex_voting ex_ranking sum.case prod.case)
  moreover have "candidate.name ex_alice = ''Alice''" "candidate.name ex_bob = ''Bob''"
    by (simp_all add: ex_defs)
  moreover have "ex_bob\<lparr>votes := 1\<rparr> \<noteq> ex_alice\<lparr>votes := 1\<rparr>"
    by (simp add: ex_defs)
  ultimately show ?thesis by simp
qed

section \<open>The majority stance\<close>

lemma majority_loop_none:
  "\<forall>p \<in> set kvs. snd p \<le> b \<Longrightarrow> majority_loop kvs b m = m"
  by (induction kvs b m rule: majority_loop.induct) auto

lemma majority_loop_some:
  "\<exists>p \<in> set kvs. b < snd p \<Longrightarrow>
   \<exists>i < length kvs. majority_loop kvs b m = Some (fst (kvs ! i)) \<and> b < snd (kvs ! i) \<and>
      (\<forall>j < length kvs. snd (kvs ! j) \<le> snd (kvs ! i)) \<and>
      (\<forall>j < i. snd (kvs ! j) < snd (kvs ! i))"
proof (induction kvs arbitrary: b m)
  case Nil then show ?case by simp
next
  case (Cons kv rest)
  obtain k v where kv: "kv = (k, v)" by (cases kv)
  show ?case
  proof (cases "b < v")
    case True
    show ?thesis
    proof (cases "\<exists>p \<in> set rest. v < snd p")
      case False
      then have all: "\<forall>p \<in> set rest. snd p \<le> v" by auto
      have r: "majority_loop (kv # rest) b m = Some k"
        using True majority_loop_none[OF all] by (simp add: kv)
      have "\<forall>j < length (kv # rest). snd ((kv # rest) ! j) \<le> v"
      proof (intro allI impI)
        fix j assume "j < length (kv # rest)"
        then show "snd ((kv # rest) ! j) \<le> v" using all by (cases j) (auto simp: kv)
      qed
      then show ?thesis using r True by (intro exI[of _ 0]) (simp add: kv)
    next
      case ex: True
      from Cons.IH[OF ex, of "Some k"] obtain i where i: "i < length rest"
        "majority_loop rest v (Some k) = Some (fst (rest ! i))" "v < snd (rest ! i)"
        "\<forall>j < length rest. snd (rest ! j) \<le> snd (rest ! i)"
        "\<forall>j < i. snd (rest ! j) < snd (rest ! i)" by blast
      have a: "majority_loop (kv # rest) b m = Some (fst ((kv # rest) ! Suc i))"
        using True i(2) by (simp add: kv)
      have b': "b < snd ((kv # rest) ! Suc i)" using True i(3) by simp
      have c: "\<forall>j < length (kv # rest). snd ((kv # rest) ! j) \<le> snd ((kv # rest) ! Suc i)"
      proof (intro allI impI)
        fix j assume "j < length (kv # rest)"
        then show "snd ((kv # rest) ! j) \<le> snd ((kv # rest) ! Suc i)"
          using i(3) i(4) by (cases j) (auto simp: kv)
      qed
      have d: "\<forall>j < Suc i. snd ((kv # rest) ! j) < snd ((kv # rest) ! Suc i)"
      proof (intro allI impI)
        fix j assume "j < Suc i"
        then show "snd ((kv # rest) ! j) < snd ((kv # rest) ! Suc i)"
          using i(3) i(5) by (cases j) (auto simp: kv)
      qed
      from i(1) a b' c d show ?thesis by (intro exI[of _ "Suc i"]) simp
    qed
  next
    case False
    with Cons.prems have ex: "\<exists>p \<in> set rest. b < snd p" by (auto simp: kv)
    from Cons.IH[OF ex, of m] obtain i where i: "i < length rest"
      "majority_loop rest b m = Some (fst (rest ! i))" "b < snd (rest ! i)"
      "\<forall>j < length rest. snd (rest ! j) \<le> snd (rest ! i)"
      "\<forall>j < i. snd (rest ! j) < snd (rest ! i)" by blast
    have a: "majority_loop (kv # rest) b m = Some (fst ((kv # rest) ! Suc i))"
      using False i(2) by (simp add: kv)
    have b': "b < snd ((kv # rest) ! Suc i)" using i(3) by simp
    have c: "\<forall>j < length (kv # rest). snd ((kv # rest) ! j) \<le> snd ((kv # rest) ! Suc i)"
    proof (intro allI impI)
      fix j assume "j < length (kv # rest)"
      then show "snd ((kv # rest) ! j) \<le> snd ((kv # rest) ! Suc i)"
        using i(3) i(4) False by (cases j) (auto simp: kv)
    qed
    have d: "\<forall>j < Suc i. snd ((kv # rest) ! j) < snd ((kv # rest) ! Suc i)"
    proof (intro allI impI)
      fix j assume "j < Suc i"
      then show "snd ((kv # rest) ! j) < snd ((kv # rest) ! Suc i)"
        using i(3) i(5) False by (cases j) (auto simp: kv)
    qed
    from i(1) a b' c d show ?thesis by (intro exI[of _ "Suc i"]) simp
  qed
qed

text \<open>The keys of a fresh tally: the stances in the order of their first occurrence.\<close>

lemma zero_dict_snoc: "zero_dict (ss @ [s]) = AList.update s 0 (zero_dict ss)"
  by (simp add: zero_dict_def)

lemma zero_dict_keys_set: "set (map fst (zero_dict ss)) = set ss"
proof (induction ss rule: rev_induct)
  case Nil show ?case by (simp add: zero_dict_def)
next
  case (snoc s ss)
  then show ?case by (auto simp: zero_dict_snoc AList.update_keys)
qed

lemma zero_dict_distinct: "distinct (map fst (zero_dict ss))"
proof (induction ss rule: rev_induct)
  case Nil show ?case by (simp add: zero_dict_def)
next
  case (snoc s ss)
  then show ?case by (simp add: zero_dict_snoc AList.distinct_update)
qed

lemma zero_dict_values: "map_of (zero_dict ss) s = (if s \<in> set ss then Some 0 else None)"
proof (induction ss rule: rev_induct)
  case Nil show ?case by (simp add: zero_dict_def)
next
  case (snoc t ss)
  then show ?case by (simp add: zero_dict_snoc AList.update_conv')
qed

lemma zero_dict_first_occurrence:
  "i < length (zero_dict ss) \<Longrightarrow>
   \<exists>n < length ss. ss ! n = fst (zero_dict ss ! i) \<and>
      (\<forall>j < n. \<exists>i' < i. fst (zero_dict ss ! i') = ss ! j)"
proof (induction ss arbitrary: i rule: rev_induct)
  case Nil then show ?case by (simp add: zero_dict_def)
next
  case (snoc s ss)
  let ?K = "map fst (zero_dict ss)"
  have keys: "map fst (zero_dict (ss @ [s])) = (if s \<in> set ss then ?K else ?K @ [s])"
    using zero_dict_keys_set[of ss] by (simp add: zero_dict_snoc AList.update_keys)
  have nth_fst: "\<And>d j. j < length d \<Longrightarrow> fst (d ! j) = map fst d ! j" by simp
  show ?case
  proof (cases "i < length (zero_dict ss)")
    case True
    from snoc.IH[OF True] obtain n where n: "n < length ss" "ss ! n = fst (zero_dict ss ! i)"
      "\<forall>j < n. \<exists>i' < i. fst (zero_dict ss ! i') = ss ! j" by blast
    have same: "\<forall>i' \<le> i. fst (zero_dict (ss @ [s]) ! i') = fst (zero_dict ss ! i')"
    proof (intro allI impI)
      fix i' assume "i' \<le> i"
      then have lt: "i' < length (zero_dict ss)" using True by simp
      then have lt': "i' < length (zero_dict (ss @ [s]))"
        using keys by (metis length_map length_append less_imp_le_nat trans_less_add1)
      have "fst (zero_dict (ss @ [s]) ! i') = map fst (zero_dict (ss @ [s])) ! i'"
        using lt' by simp
      also have "\<dots> = ?K ! i'" using lt by (simp add: keys nth_append)
      also have "\<dots> = fst (zero_dict ss ! i')" using lt by simp
      finally show "fst (zero_dict (ss @ [s]) ! i') = fst (zero_dict ss ! i')" .
    qed
    have 1: "(ss @ [s]) ! n = fst (zero_dict (ss @ [s]) ! i)"
      using n(1) n(2) same by (simp add: nth_append)
    have 2: "\<forall>j < n. \<exists>i' < i. fst (zero_dict (ss @ [s]) ! i') = (ss @ [s]) ! j"
    proof (intro allI impI)
      fix j assume j: "j < n"
      with n(3) obtain i' where "i' < i" "fst (zero_dict ss ! i') = ss ! j" by blast
      then show "\<exists>i' < i. fst (zero_dict (ss @ [s]) ! i') = (ss @ [s]) ! j"
        using same j n(1) by (intro exI[of _ i']) (simp add: nth_append)
    qed
    from n(1) 1 2 show ?thesis by (intro exI[of _ n]) simp
  next
    case False
    have len: "length (zero_dict (ss @ [s])) = length (map fst (zero_dict (ss @ [s])))" by simp
    from False snoc.prems have new: "s \<notin> set ss" and i: "i = length (zero_dict ss)"
      using keys len by (auto split: if_splits)
    have "fst (zero_dict (ss @ [s]) ! i) = map fst (zero_dict (ss @ [s])) ! i"
      using snoc.prems by simp
    also have "\<dots> = s" using new i by (simp add: keys nth_append)
    finally have 1: "(ss @ [s]) ! length ss = fst (zero_dict (ss @ [s]) ! i)" by simp
    have 2: "\<forall>j < length ss. \<exists>i' < i. fst (zero_dict (ss @ [s]) ! i') = (ss @ [s]) ! j"
    proof (intro allI impI)
      fix j assume j: "j < length ss"
      then have "ss ! j \<in> set ?K" using zero_dict_keys_set[of ss] by simp
      then obtain i' where i': "i' < length ?K" "?K ! i' = ss ! j"
        by (auto simp: in_set_conv_nth)
      have "fst (zero_dict (ss @ [s]) ! i') = map fst (zero_dict (ss @ [s])) ! i'"
        using i'(1) snoc.prems i by simp
      also have "\<dots> = ss ! j" using i' new by (simp add: keys nth_append)
      finally show "\<exists>i' < i. fst (zero_dict (ss @ [s]) ! i') = (ss @ [s]) ! j"
        using i'(1) i j by (intro exI[of _ i']) (simp add: nth_append)
    qed
    from 1 2 show ?thesis by (intro exI[of _ "length ss"]) simp
  qed
qed

lemma incr_key_ok:
  assumes "incr_key d k = Inr d'"
  shows "map fst d' = map fst d \<and>
         (\<forall>t. map_of d' t = (if t = k then map_option (\<lambda>n. n + 1) (map_of d t) else map_of d t))"
proof -
  from assms obtain n where n: "map_of d k = Some n" and d': "d' = AList.update k (n + 1) d"
    by (auto simp: incr_key_def split: option.splits)
  from n have "k \<in> set (map fst d)" by (metis map_of_eq_None_iff option.distinct(1) set_map)
  then have "map fst d' = map fst d" by (simp add: d' AList.update_keys)
  moreover have "\<forall>t. map_of d' t = (if t = k then map_option (\<lambda>n. n + 1) (map_of d t) else map_of d t)"
    by (simp add: d' AList.update_conv' n)
  ultimately show ?thesis by simp
qed

lemma vote_for_stance_ok:
  assumes "vote_for_stance iv st = Inr iv'"
  shows "issue_votes.issue iv' = issue_votes.issue iv \<and>
         map fst (stance_votes iv') = map fst (stance_votes iv) \<and>
         (\<forall>t. map_of (stance_votes iv') t =
               (if st = Some t then map_option (\<lambda>n. n + 1) (map_of (stance_votes iv) t)
                else map_of (stance_votes iv) t))"
proof -
  from assms obtain s d where st: "st = Some s" and d: "incr_key (stance_votes iv) s = Inr d"
    and iv': "iv' = iv\<lparr>stance_votes := d\<rparr>"
    by (auto simp: vote_for_stance_def split: option.splits sum.splits)
  from incr_key_ok[OF d] show ?thesis by (auto simp: iv' st)
qed

lemma tally_views_ok:
  "tally_views vs ivs = Inr ivs' \<Longrightarrow>
   length ivs' = length ivs \<and>
   (\<forall>i < length ivs.
      issue_votes.issue (ivs' ! i) = issue_votes.issue (ivs ! i) \<and>
      map fst (stance_votes (ivs' ! i)) = map fst (stance_votes (ivs ! i)) \<and>
      (\<forall>t. map_of (stance_votes (ivs' ! i)) t =
            (if i < length vs \<and> view.stance (vs ! i) = Some t
             then map_option (\<lambda>n. n + 1) (map_of (stance_votes (ivs ! i)) t)
             else map_of (stance_votes (ivs ! i)) t)))"
proof (induction vs ivs arbitrary: ivs' rule: tally_views.induct)
  case (1 v vs iv ivs)
  from "1.prems" obtain iv' rest where iv': "vote_for_stance iv (view.stance v) = Inr iv'"
    and rest: "tally_views vs ivs = Inr rest" and r: "ivs' = iv' # rest"
    by (auto split: sum.splits)
  note ih = "1.IH"[OF iv' rest]
  note hd = vote_for_stance_ok[OF iv']
  show ?case
  proof (intro conjI allI impI)
    show "length ivs' = length (iv # ivs)" using ih r by simp
  next
    fix i assume "i < length (iv # ivs)"
    then show "issue_votes.issue (ivs' ! i) = issue_votes.issue ((iv # ivs) ! i)"
      using ih hd r by (cases i) auto
  next
    fix i assume "i < length (iv # ivs)"
    then show "map fst (stance_votes (ivs' ! i)) = map fst (stance_votes ((iv # ivs) ! i))"
      using ih hd r by (cases i) auto
  next
    fix i t assume "i < length (iv # ivs)"
    then show "map_of (stance_votes (ivs' ! i)) t =
            (if i < length (v # vs) \<and> view.stance ((v # vs) ! i) = Some t
             then map_option (\<lambda>n. n + 1) (map_of (stance_votes ((iv # ivs) ! i)) t)
             else map_of (stance_votes ((iv # ivs) ! i)) t)"
      using ih hd r by (cases i) auto
  qed
qed simp_all

lemma stance_count_Cons:
  "stance_count (p # ps) i t =
     (if i < length (person.views p) \<and> view.stance (person.views p ! i) = Some t then 1 else 0)
     + stance_count ps i t"
  by (simp add: stance_count_def)

lemma tally_people_ok:
  "tally_people ps ivs = Inr ivs' \<Longrightarrow>
   length ivs' = length ivs \<and>
   (\<forall>i < length ivs.
      issue_votes.issue (ivs' ! i) = issue_votes.issue (ivs ! i) \<and>
      map fst (stance_votes (ivs' ! i)) = map fst (stance_votes (ivs ! i)) \<and>
      (\<forall>t. map_of (stance_votes (ivs' ! i)) t =
            map_option (\<lambda>n. n + int (stance_count ps i t)) (map_of (stance_votes (ivs ! i)) t)))"
proof (induction ps arbitrary: ivs)
  case Nil
  then show ?case by (simp add: stance_count_def option.map_ident)
next
  case (Cons p ps)
  from Cons.prems obtain ivs1 where t1: "tally_views (person.views p) ivs = Inr ivs1"
    and rec: "tally_people ps ivs1 = Inr ivs'" by (auto split: sum.splits)
  note a = tally_views_ok[OF t1]
  note b = Cons.IH[OF rec]
  show ?case
  proof (intro conjI allI impI)
    show "length ivs' = length ivs" using a b by simp
  next
    fix i assume "i < length ivs"
    then show "issue_votes.issue (ivs' ! i) = issue_votes.issue (ivs ! i)" using a b by simp
  next
    fix i assume "i < length ivs"
    then show "map fst (stance_votes (ivs' ! i)) = map fst (stance_votes (ivs ! i))"
      using a b by simp
  next
    fix i t assume i: "i < length ivs"
    then have i1: "i < length ivs1" using a by simp
    from b i1 have "map_of (stance_votes (ivs' ! i)) t =
       map_option (\<lambda>n. n + int (stance_count ps i t)) (map_of (stance_votes (ivs1 ! i)) t)"
      by blast
    moreover from a i have "map_of (stance_votes (ivs1 ! i)) t =
            (if i < length (person.views p) \<and> view.stance (person.views p ! i) = Some t
             then map_option (\<lambda>n. n + 1) (map_of (stance_votes (ivs ! i)) t)
             else map_of (stance_votes (ivs ! i)) t)" by blast
    ultimately show "map_of (stance_votes (ivs' ! i)) t =
       map_option (\<lambda>n. n + int (stance_count (p # ps) i t)) (map_of (stance_votes (ivs ! i)) t)"
      by (cases "map_of (stance_votes (ivs ! i)) t") (auto simp: stance_count_Cons)
  qed
qed

lemma majority_of_tally:
  assumes keys: "map fst d = map fst (zero_dict ss)"
    and vals: "\<forall>t. map_of d t = (if t \<in> set ss then Some (int (c t)) else None)"
  shows "case majority_loop d 0 None of
           None \<Rightarrow> \<forall>t \<in> set ss. c t = 0
         | Some s \<Rightarrow> \<exists>n < length ss. ss ! n = s \<and> 0 < c s \<and>
                        (\<forall>t \<in> set ss. c t \<le> c s) \<and> (\<forall>j < n. c (ss ! j) < c s)"
proof -
  have dist: "distinct (map fst d)" using keys zero_dict_distinct by simp
  have len: "length d = length (zero_dict ss)" using keys by (metis length_map)
  have kset: "set (map fst d) = set ss" using keys zero_dict_keys_set by simp
  have val: "\<forall>j < length d. snd (d ! j) = int (c (fst (d ! j))) \<and> fst (d ! j) \<in> set ss"
  proof (intro allI impI)
    fix j assume j: "j < length d"
    then have "(fst (d ! j), snd (d ! j)) \<in> set d" by simp
    then have "map_of d (fst (d ! j)) = Some (snd (d ! j))" using dist by simp
    moreover have "fst (d ! j) \<in> set ss" using j kset by (metis nth_map length_map nth_mem)
    ultimately show "snd (d ! j) = int (c (fst (d ! j))) \<and> fst (d ! j) \<in> set ss"
      using vals by simp
  qed
  have key_ix: "\<forall>t \<in> set ss. \<exists>j < length d. fst (d ! j) = t"
  proof
    fix t assume "t \<in> set ss"
    then have "t \<in> set (map fst d)" using kset by simp
    then obtain j where "j < length (map fst d)" "map fst d ! j = t"
      unfolding in_set_conv_nth by blast
    then show "\<exists>j < length d. fst (d ! j) = t" by (intro exI[of _ j]) simp
  qed
  show ?thesis
  proof (cases "\<exists>p \<in> set d. 0 < snd p")
    case False
    then have all: "\<forall>p \<in> set d. snd p \<le> 0" by auto
    have "\<forall>t \<in> set ss. c t = 0"
    proof
      fix t assume "t \<in> set ss"
      with key_ix obtain j where j: "j < length d" "fst (d ! j) = t" by blast
      then have "snd (d ! j) \<le> 0" using all by simp
      with val j show "c t = 0" by simp
    qed
    then show ?thesis using majority_loop_none[OF all, of None] by simp
  next
    case True
    from majority_loop_some[OF True, of None] obtain i where i: "i < length d"
      "majority_loop d 0 None = Some (fst (d ! i))" "0 < snd (d ! i)"
      "\<forall>j < length d. snd (d ! j) \<le> snd (d ! i)" "\<forall>j < i. snd (d ! j) < snd (d ! i)"
      by blast
    let ?s = "fst (d ! i)"
    have fstz: "\<forall>j < length d. fst (zero_dict ss ! j) = fst (d ! j)"
    proof (intro allI impI)
      fix j assume j: "j < length d"
      then have "fst (zero_dict ss ! j) = map fst (zero_dict ss) ! j" using len by simp
      also have "\<dots> = fst (d ! j)" using j keys[symmetric] by simp
      finally show "fst (zero_dict ss ! j) = fst (d ! j)" .
    qed
    from zero_dict_first_occurrence[of i ss] i(1) len obtain n where n: "n < length ss"
      "ss ! n = fst (zero_dict ss ! i)"
      "\<forall>j < n. \<exists>i' < i. fst (zero_dict ss ! i') = ss ! j" by auto
    have 1: "ss ! n = ?s" using n(2) fstz i(1) by simp
    have 2: "0 < c ?s" using i(3) val i(1) by simp
    have 3: "\<forall>t \<in> set ss. c t \<le> c ?s"
    proof
      fix t assume "t \<in> set ss"
      with key_ix obtain j where j: "j < length d" "fst (d ! j) = t" by blast
      then have "snd (d ! j) \<le> snd (d ! i)" using i(4) by simp
      with val j i(1) show "c t \<le> c ?s" by simp
    qed
    have 4: "\<forall>j < n. c (ss ! j) < c ?s"
    proof (intro allI impI)
      fix j assume "j < n"
      with n(3) obtain i' where i': "i' < i" "fst (zero_dict ss ! i') = ss ! j" by blast
      then have "fst (d ! i') = ss ! j" using fstz i(1) by simp
      moreover have "snd (d ! i') < snd (d ! i)" using i(5) i'(1) by simp
      ultimately show "c (ss ! j) < c ?s" using val i(1) i'(1) by simp
    qed
    from n(1) 1 2 3 4 show ?thesis by (auto simp: i(2))
  qed
qed

lemma map_fst_zip_same: "length xs = length ys \<Longrightarrow> map fst (zip xs ys) = xs"
  by (induction xs ys rule: list_induct2) simp_all

text \<open>
  C4: when \<^verbatim>\<open>generate_majority_candidate\<close> returns, for issues sorted by name (as
  \<^verbatim>\<open>generate_issues\<close> leaves them), the majority candidate's \<open>i\<close>-th view is on the
  \<open>i\<close>-th issue, and its stance is \<open>None\<close> exactly when no stance of the issue was
  counted at all; otherwise it is a stance of the issue with a positive count that no
  other stance of the issue exceeds, and every stance declared before it in the issue's
  stance list has a strictly smaller count.
\<close>

theorem majority_stance_plurality:
  assumes gm: "generate_majority_candidate ps iss = Inr c"
    and srt: "sorted (map issue.name iss)"
    and i: "i < length iss"
  shows "length (candidate.views c) = length iss \<and>
         view.issue (candidate.views c ! i) = iss ! i \<and>
         (case view.stance (candidate.views c ! i) of
            None \<Rightarrow> \<forall>t \<in> set (issue.stances (iss ! i)). stance_count ps i t = 0
          | Some s \<Rightarrow>
              \<exists>n < length (issue.stances (iss ! i)).
                 issue.stances (iss ! i) ! n = s \<and> 0 < stance_count ps i s \<and>
                 (\<forall>t \<in> set (issue.stances (iss ! i)). stance_count ps i t \<le> stance_count ps i s) \<and>
                 (\<forall>j < n. stance_count ps i (issue.stances (iss ! i) ! j) < stance_count ps i s))"
proof -
  from gm obtain ivs where t: "tally_people ps (map IssueVotes iss) = Inr ivs"
    and c: "c = Candidate ''majority'' (majority_views iss ivs)"
    by (auto simp: generate_majority_candidate_def split: sum.splits)
  note tp = tally_people_ok[OF t]
  from tp have len: "length ivs = length iss" by simp
  let ?mv = "majority_views iss ivs"
  have "map view.issue ?mv = map fst (zip iss ivs)"
    by (simp add: majority_views_def View_def case_prod_unfold)
  then have mvi: "map view.issue ?mv = iss" using len by (simp add: map_fst_zip_same)
  have "map (\<lambda>x. issue.name (view.issue x)) ?mv = map issue.name (map view.issue ?mv)"
    by simp
  then have "sorted (map (\<lambda>x. issue.name (view.issue x)) ?mv)" using srt mvi by simp
  then have "sort_key (\<lambda>x. issue.name (view.issue x)) ?mv = ?mv" by (rule sort_key_id_if_sorted)
  then have views: "candidate.views c = ?mv" by (simp add: c Candidate_def)
  have l: "length (candidate.views c) = length iss"
    using views len by (simp add: majority_views_def)
  have nth: "candidate.views c ! i = View (iss ! i) (get_majority_stance (ivs ! i)) 1"
    using views i len by (simp add: majority_views_def)
  let ?d = "stance_votes (ivs ! i)" and ?ss = "issue.stances (iss ! i)"
  have i': "i < length (map IssueVotes iss)" using i by simp
  from tp i' have keys: "map fst ?d = map fst (stance_votes (map IssueVotes iss ! i))"
    and vals: "\<forall>t. map_of ?d t =
       map_option (\<lambda>n. n + int (stance_count ps i t)) (map_of (stance_votes (map IssueVotes iss ! i)) t)"
    by blast+
  have k: "map fst ?d = map fst (zero_dict ?ss)" using keys i by (simp add: IssueVotes_def)
  have v: "\<forall>t. map_of ?d t = (if t \<in> set ?ss then Some (int (stance_count ps i t)) else None)"
    using vals i by (simp add: IssueVotes_def zero_dict_values)
  from majority_of_tally[OF k v]
  have "case get_majority_stance (ivs ! i) of
            None \<Rightarrow> \<forall>t \<in> set ?ss. stance_count ps i t = 0
          | Some s \<Rightarrow>
              \<exists>n < length ?ss. ?ss ! n = s \<and> 0 < stance_count ps i s \<and>
                 (\<forall>t \<in> set ?ss. stance_count ps i t \<le> stance_count ps i s) \<and>
                 (\<forall>j < n. stance_count ps i (?ss ! j) < stance_count ps i s)"
    by (simp add: get_majority_stance_def)
  then show ?thesis using l nth by (simp add: View_def)
qed

lemma ex_majority:
  "generate_majority_candidate [ex_voter1, ex_voter2] [ex_issue_a, ex_issue_b] =
     Inr \<lparr>candidate.views = [View ex_issue_a (Some ''no'') 1, View ex_issue_b (Some ''no'') 1],
          votes = 0, name = ''majority''\<rparr>"
  by (simp add: generate_majority_candidate_def IssueVotes_def zero_dict_def vote_for_stance_def
      incr_key_def majority_views_def get_majority_stance_def Candidate_def
      ex_voter1_def ex_voter2_def ex_issue_a_def ex_issue_b_def Issue_def View_def)

text \<open>With no voters the majority stance is \<open>None\<close>.\<close>

lemma ex_nobody:
  "generate_majority_candidate [] [ex_issue_a] =
     Inr \<lparr>candidate.views = [View ex_issue_a None 1], votes = 0, name = ''majority''\<rparr>"
  by (simp add: generate_majority_candidate_def IssueVotes_def zero_dict_def
      majority_views_def get_majority_stance_def Candidate_def
      ex_issue_a_def Issue_def View_def)

text \<open>
  One voter says \<open>no\<close> and one says \<open>yes\<close> on each issue: the tie goes to \<open>no\<close>, which
  is declared first.
\<close>

theorem majority_stance_plurality_witness:
  "generate_majority_candidate [ex_voter1, ex_voter2] [ex_issue_a, ex_issue_b] =
     Inr \<lparr>candidate.views = [View ex_issue_a (Some ''no'') 1, View ex_issue_b (Some ''no'') 1],
          votes = 0, name = ''majority''\<rparr> \<and>
   0 < stance_count [ex_voter1, ex_voter2] 0 ''no'' \<and>
   stance_count [ex_voter1, ex_voter2] 0 ''yes'' \<le> stance_count [ex_voter1, ex_voter2] 0 ''no''"
proof -
  let ?c = "\<lparr>candidate.views = [View ex_issue_a (Some ''no'') 1, View ex_issue_b (Some ''no'') 1],
          votes = 0, name = ''majority''\<rparr>"
  have h2: "sorted (map issue.name [ex_issue_a, ex_issue_b])"
    by (simp add: ex_issue_a_def ex_issue_b_def Issue_def)
  have h3: "0 < length [ex_issue_a, ex_issue_b]" by simp
  have st: "view.stance (candidate.views ?c ! 0) = Some ''no''" by (simp add: View_def)
  have ss: "issue.stances ([ex_issue_a, ex_issue_b] ! 0) = [''no'', ''yes'']"
    by (simp add: ex_issue_a_def Issue_def)
  from majority_stance_plurality[OF ex_majority h2 h3]
  have "\<exists>n < length [''no'', ''yes''].
           [''no'', ''yes''] ! n = ''no'' \<and> 0 < stance_count [ex_voter1, ex_voter2] 0 ''no'' \<and>
           (\<forall>t \<in> set [''no'', ''yes''].
              stance_count [ex_voter1, ex_voter2] 0 t \<le> stance_count [ex_voter1, ex_voter2] 0 ''no'') \<and>
           (\<forall>j < n. stance_count [ex_voter1, ex_voter2] 0 ([''no'', ''yes''] ! j)
                   < stance_count [ex_voter1, ex_voter2] 0 ''no'')"
    unfolding st ss by simp
  then have "0 < stance_count [ex_voter1, ex_voter2] 0 ''no''"
    and "stance_count [ex_voter1, ex_voter2] 0 ''yes'' \<le> stance_count [ex_voter1, ex_voter2] 0 ''no''"
    by auto
  with ex_majority show ?thesis by simp
qed

end
